theory Spec2Isabelle
  imports Main "HOL-Library.AList"
begin

section \<open>Values, binding contexts and outcomes\<close>

text \<open>
  The candidates of match.js are JavaScript values: primitives and (nested) arrays.
  Numbers are modelled as integers (the library never computes with them, it only
  compares them with \<^verbatim>\<open>===\<close>).
\<close>

datatype prim = Undefined | Null | Num int | Str string | Boolean bool

datatype jsval = Prim prim | Arr "jsval list"

text \<open>
  The binding context \<^verbatim>\<open>j\<close> is one JavaScript object shared by all matchers of a
  top-level call and mutated in place (\<^verbatim>\<open>j[str] = x\<close>). It is modelled by passing the
  object's state through every call: every matcher returns the state of the object after
  the call together with its outcome, also when the outcome is \<^verbatim>\<open>false\<close>. The state
  is the list of the object's own properties, in the order in which their keys were first
  written, and the object's prototype: \<^verbatim>\<open>Object.prototype\<close> for the \<^verbatim>\<open>{}\<close> that
  \<^verbatim>\<open>matchable\<close> creates, and an array or \<^verbatim>\<open>null\<close> after an assignment to
  \<^verbatim>\<open>__proto__\<close>.
\<close>

datatype prototype = Object_prototype | Array_instance "jsval list" | Null_prototype

datatype object = Object (props: "(string \<times> jsval) list") (proto: prototype)

type_synonym ctx = object

text \<open>The plain object with the given own properties; \<open>object_of []\<close> is \<^verbatim>\<open>{}\<close>.\<close>

definition object_of :: "(string \<times> jsval) list \<Rightarrow> ctx" where
  "object_of ps = Object ps Object_prototype"

text \<open>
  The assignment \<^verbatim>\<open>j[str] = x\<close>. An own property \<open>str\<close> is overwritten. Otherwise the
  prototype chain is searched for a setter; the only one is the accessor \<^verbatim>\<open>__proto__\<close>
  of \<^verbatim>\<open>Object.prototype\<close>, which every chain ends in unless the prototype is
  \<^verbatim>\<open>null\<close>. That setter makes an array or \<^verbatim>\<open>null\<close> the prototype of \<open>j\<close> and
  ignores every other value; it creates no own property. In every other case the
  assignment creates the own property \<open>str\<close> (the properties that are inherited from
  an array, from \<^verbatim>\<open>Array.prototype\<close> and from \<^verbatim>\<open>Object.prototype\<close> are writable data
  properties).
\<close>

definition assign :: "string \<Rightarrow> jsval \<Rightarrow> ctx \<Rightarrow> ctx" where
  "assign str x j =
     (if str = ''__proto__'' \<and> map_of (props j) ''__proto__'' = None
         \<and> proto j \<noteq> Null_prototype
      then
        (case x of
           Arr xs \<Rightarrow> Object (props j) (Array_instance xs)
         | Prim Null \<Rightarrow> Object (props j) Null_prototype
         | Prim v \<Rightarrow> j)
      else Object (AList.update str x (props j)) (proto j))"

text \<open>
  A matcher returns \<^verbatim>\<open>j\<close> (truthy: \<open>Match\<close>) or \<^verbatim>\<open>false\<close> (\<open>NoMatch\<close>); calling a
  value that is not a function throws a TypeError.
\<close>

datatype outcome = TypeError | NoMatch | Match

type_synonym result = "outcome \<times> ctx"

definition typeof :: "jsval \<Rightarrow> string" where
  "typeof x = (case x of
       Prim Undefined \<Rightarrow> ''undefined''
     | Prim Null \<Rightarrow> ''object''
     | Prim (Num n) \<Rightarrow> ''number''
     | Prim (Str s) \<Rightarrow> ''string''
     | Prim (Boolean b) \<Rightarrow> ''boolean''
     | Arr xs \<Rightarrow> ''object'')"

text \<open>\<^verbatim>\<open>x[i]\<close>: reading past the end of an array gives \<^verbatim>\<open>undefined\<close>.\<close>

definition index :: "jsval list \<Rightarrow> nat \<Rightarrow> jsval" where
  "index x i = (if i < length x then x ! i else Prim Undefined)"

text \<open>\<^verbatim>\<open>x.slice(a, b)\<close> for \<open>0 \<le> a \<le> b\<close>: the end is clamped to the length.\<close>

definition slice :: "jsval list \<Rightarrow> nat \<Rightarrow> nat \<Rightarrow> jsval list" where
  "slice x a b = take (b - a) (drop a x)"

section \<open>Patterns\<close>

text \<open>
  Every pattern of match.js is a closure made by \<^verbatim>\<open>matchable(p, type)\<close>, carrying the
  constructor that made it in its \<^verbatim>\<open>type\<close> field. The closures are represented by
  what they close over, one constructor of \<open>pat\<close> per \<^verbatim>\<open>matchable\<close> call site;
  \<open>pmatch\<close> below is the call of such a closure. \<open>P_notfn s\<close> stands for the string
  \<open>s\<close> in the place of a function: \<^verbatim>\<open>lazy\<close> and \<^verbatim>\<open>greedy\<close> wrap whatever
  \<^verbatim>\<open>repeat\<close> returned, which is a string when the bounds are rejected. The literal of
  \<^verbatim>\<open>is\<close> is a primitive: \<^verbatim>\<open>===\<close> on arrays and objects compares identities, which
  the values here do not have.
\<close>

datatype ptype = T_lst | T_any | T_is | T_number | T_string | T_boolean | T_or
  | T_repeat | T_lazy | T_greedy

text \<open>
  The bounds \<^verbatim>\<open>min\<close> and \<^verbatim>\<open>max\<close> of a repeat: \<^verbatim>\<open>undefined\<close> (omitted),
  \<^verbatim>\<open>false\<close> or a number.
\<close>

datatype bound = B_undefined | B_false | B_num int

datatype pat =
    P_any
  | P_is prim
  | P_number
  | P_string
  | P_boolean
  | P_or "pat list"
  | P_lst "pat list"
  | P_name string pat
  | P_repeat pat bound bound
  | P_lazy pat
  | P_greedy pat
  | P_notfn string

text \<open>
  The argument of \<^verbatim>\<open>match\<close>: the function \<^verbatim>\<open>any\<close> itself, a function (a compiled
  pattern), an array of such arguments, or a primitive.
\<close>

datatype raw = R_any_fn | R_fn pat | R_arr "raw list" | R_prim prim

text \<open>The \<^verbatim>\<open>type\<close> field; \<^verbatim>\<open>name\<close> passes on the type of the pattern it wraps.\<close>

fun pattern_type :: "pat \<Rightarrow> ptype option" where
  "pattern_type P_any = Some T_any"
| "pattern_type (P_is v) = Some T_is"
| "pattern_type P_number = Some T_number"
| "pattern_type P_string = Some T_string"
| "pattern_type P_boolean = Some T_boolean"
| "pattern_type (P_or args) = Some T_or"
| "pattern_type (P_lst ps) = Some T_lst"
| "pattern_type (P_name str p) = pattern_type p"
| "pattern_type (P_repeat p mn mx) = Some T_repeat"
| "pattern_type (P_lazy p) = Some T_lazy"
| "pattern_type (P_greedy p) = Some T_greedy"
| "pattern_type (P_notfn s) = None"

text \<open>The \<^verbatim>\<open>binding\<close> field, set by \<^verbatim>\<open>name\<close> only.\<close>

fun binding :: "pat \<Rightarrow> string option" where
  "binding (P_name str p) = Some str"
| "binding p = None"

subsection \<open>The constructors\<close>

definition any :: pat where
  "any = P_any"

definition is_lit :: "prim \<Rightarrow> pat" where
  "is_lit object = P_is object"

definition number :: pat where
  "number = P_number"

definition string :: pat where
  "string = P_string"

definition boolean :: pat where
  "boolean = P_boolean"

text \<open>
  \<^verbatim>\<open>match\<close> and \<^verbatim>\<open>lst\<close> call each other: \<^verbatim>\<open>match\<close> of an array is
  \<^verbatim>\<open>lst.apply(null, p)\<close>, and \<^verbatim>\<open>lst\<close> starts with \<^verbatim>\<open>ps = ps.map(match)\<close>. The list
  closure keeps the compiled \<open>ps\<close>; its chunks are computed from them by \<open>chunkify\<close>.
\<close>

fun match :: "raw \<Rightarrow> pat" where
  "match R_any_fn = any"
| "match (R_fn p) = p"
| "match (R_arr ps) = P_lst (map match ps)"
| "match (R_prim v) = is_lit v"

definition lst :: "raw list \<Rightarrow> pat" where
  "lst ps = P_lst (map match ps)"

lemma match_array: "match (R_arr ps) = lst ps"
  by (simp add: lst_def)

definition or_pat :: "raw list \<Rightarrow> pat" where
  "or_pat args = P_or (map match args)"

text \<open>An omitted argument is \<^verbatim>\<open>undefined\<close>.\<close>

definition name :: "string \<Rightarrow> raw \<Rightarrow> pat" where
  "name str p =
     (let p = (if p = R_prim Undefined then R_fn any else p);
          p = match p
      in P_name str p)"

text \<open>
  \<^verbatim>\<open>repeat\<close> returns the string \<^verbatim>\<open>'repeat pattern error min/max'\<close> (after
  \<^verbatim>\<open>console.error\<close>) when \<^verbatim>\<open>min\<close> is undefined and \<^verbatim>\<open>max\<close> is not, and a pattern
  otherwise.
\<close>

definition repeat :: "raw \<Rightarrow> bound \<Rightarrow> bound \<Rightarrow> string + pat" where
  "repeat p mn mx =
     (let p = (if p = R_prim Undefined then R_fn any else p) in
      if mn = B_undefined then
        (if mx = B_undefined then Inr (P_repeat (match p) B_false B_false)
         else Inl ''repeat pattern error min/max'')
      else Inr (P_repeat (match p) mn mx))"

definition callee :: "string + pat \<Rightarrow> pat" where
  "callee v = (case v of Inl s \<Rightarrow> P_notfn s | Inr p \<Rightarrow> p)"

definition lazy :: "raw \<Rightarrow> bound \<Rightarrow> bound \<Rightarrow> pat" where
  "lazy p mn mx = (let p = repeat p mn mx in P_lazy (callee p))"

definition greedy :: "raw \<Rightarrow> bound \<Rightarrow> bound \<Rightarrow> pat" where
  "greedy p mn mx = (let p = repeat p mn mx in P_greedy (callee p))"

section \<open>Chunks\<close>

text \<open>
  A chunk is an array of patterns (\<open>Fx\<close>) or a single pattern (\<open>Rp\<close>).
\<close>

datatype chunk = Fx "pat list" | Rp pat

fun chunkify_loop :: "(pat \<Rightarrow> bool) \<Rightarrow> pat list \<Rightarrow> pat list \<Rightarrow> chunk list \<Rightarrow> chunk list" where
  "chunkify_loop pred [] fx result = (if fx \<noteq> [] then result @ [Fx fx] else result)"
| "chunkify_loop pred (e # es) fx result =
     (if \<not> pred e then chunkify_loop pred es (fx @ [e]) result
      else chunkify_loop pred es [] ((if fx \<noteq> [] then result @ [Fx fx] else result) @ [Rp e]))"

definition chunkify :: "pat list \<Rightarrow> (pat \<Rightarrow> bool) \<Rightarrow> chunk list" where
  "chunkify list pred = chunkify_loop pred list [] []"

text \<open>The predicate \<^verbatim>\<open>e => e && (e.type===greedy || e.type===lazy)\<close>.\<close>

definition is_rep :: "pat \<Rightarrow> bool" where
  "is_rep e = (pattern_type e = Some T_greedy \<or> pattern_type e = Some T_lazy)"

text \<open>\<^verbatim>\<open>chunk.type\<close>: an array has no \<^verbatim>\<open>type\<close> property.\<close>

fun chunk_type :: "chunk \<Rightarrow> ptype option" where
  "chunk_type (Fx ps) = None"
| "chunk_type (Rp e) = pattern_type e"

text \<open>
  \<^verbatim>\<open>chunk.length\<close>: the length of the array, or the number of parameters of the
  closure \<^verbatim>\<open>function(x, j)\<close>.
\<close>

fun chunk_length :: "chunk \<Rightarrow> nat" where
  "chunk_length (Fx ps) = length ps"
| "chunk_length (Rp e) = 2"

text \<open>
  The first loop of the greedy branch, over \<^verbatim>\<open>c = ci+1, ..., chunks.length-1\<close>; its
  body reads \<^verbatim>\<open>chunks[ci]\<close> and \<^verbatim>\<open>chunks[ci+1]\<close>, not \<^verbatim>\<open>chunks[c]\<close>.
\<close>

definition fixlength :: "chunk list \<Rightarrow> nat \<Rightarrow> nat" where
  "fixlength chunks ci =
     fold (\<lambda>c fl.
        if chunk_type (chunks ! ci) \<noteq> Some T_greedy \<and> chunk_type (chunks ! ci) \<noteq> Some T_lazy
           \<and> chunk_length (chunks ! (ci + 1)) \<noteq> 0
        then fl + chunk_length (chunks ! (ci + 1)) else fl)
      [ci + 1 ..< length chunks] 0"

section \<open>Calling a pattern\<close>

text \<open>
  The loops of the closures call other closures; they take the call \<open>m\<close> of a
  closure as a parameter, and \<open>pmatch\<close> below passes itself.
\<close>

type_synonym matcher = "pat \<Rightarrow> jsval \<Rightarrow> ctx \<Rightarrow> result"

text \<open>The loop of \<^verbatim>\<open>or\<close>: \<^verbatim>\<open>if(args[i](x, j)) return j;\<close>, then \<^verbatim>\<open>return false\<close>.\<close>

fun or_loop :: "matcher \<Rightarrow> pat list \<Rightarrow> jsval \<Rightarrow> ctx \<Rightarrow> result" where
  "or_loop m [] x j = (NoMatch, j)"
| "or_loop m (a # args) x j =
     (case m a x j of
        (Match, j') \<Rightarrow> (Match, j')
      | (NoMatch, j') \<Rightarrow> or_loop m args x j'
      | (TypeError, j') \<Rightarrow> (TypeError, j'))"

text \<open>The loop of \<^verbatim>\<open>repeat\<close>: \<^verbatim>\<open>if(!p(x[i], j)) return false;\<close>, then \<^verbatim>\<open>return j\<close>.\<close>

fun repeat_loop :: "matcher \<Rightarrow> pat \<Rightarrow> jsval list \<Rightarrow> ctx \<Rightarrow> result" where
  "repeat_loop m p [] j = (Match, j)"
| "repeat_loop m p (e # es) j =
     (case m p e j of
        (Match, j') \<Rightarrow> repeat_loop m p es j'
      | (NoMatch, j') \<Rightarrow> (NoMatch, j')
      | (TypeError, j') \<Rightarrow> (TypeError, j'))"

text \<open>
  The loop of a fixed chunk: \<^verbatim>\<open>if(!chunk[c](x[c+xi], j)) return false;\<close> for
  \<^verbatim>\<open>c = 0, ..., chunk.length-1\<close>; the argument \<open>i\<close> is \<^verbatim>\<open>c+xi\<close>.
\<close>

fun fixed_loop :: "matcher \<Rightarrow> pat list \<Rightarrow> jsval list \<Rightarrow> nat \<Rightarrow> ctx \<Rightarrow> result" where
  "fixed_loop m [] x i j = (Match, j)"
| "fixed_loop m (p # ps) x i j =
     (case m p (index x i) j of
        (Match, j') \<Rightarrow> fixed_loop m ps x (i + 1) j'
      | (NoMatch, j') \<Rightarrow> (NoMatch, j')
      | (TypeError, j') \<Rightarrow> (TypeError, j'))"

text \<open>\<^verbatim>\<open>chunk(y, j)\<close>: an array is not a function.\<close>

definition call_chunk :: "matcher \<Rightarrow> chunk \<Rightarrow> jsval \<Rightarrow> ctx \<Rightarrow> result" where
  "call_chunk m chunk y j = (case chunk of Rp e \<Rightarrow> m e y j | Fx ps \<Rightarrow> (TypeError, j))"

text \<open>
  \<^verbatim>\<open>submatch(ci, xi)\<close> of the closure made by \<^verbatim>\<open>lst\<close>, with its two \<^verbatim>\<open>replength\<close>
  loops. The source's local names are written out: \<^verbatim>\<open>chunk\<close> is \<open>chunks ! ci\<close>,
  \<^verbatim>\<open>chunklen\<close> is \<open>length ps\<close>, \<^verbatim>\<open>datalen\<close> is \<open>int (length x) - int xi\<close>, and the
  \<^verbatim>\<open>fixlength\<close> of the lazy branch is \<open>length x\<close>. In the last branch \<^verbatim>\<open>chunk\<close> is
  an array; were it a function (which \<open>chunkify\<close> never produces there),
  \<^verbatim>\<open>chunk.length\<close> would be 2 and \<^verbatim>\<open>chunk[0]\<close> undefined.
\<close>

function submatch :: "matcher \<Rightarrow> chunk list \<Rightarrow> jsval list \<Rightarrow> nat \<Rightarrow> nat \<Rightarrow> ctx \<Rightarrow> result"
  and greedy_loop :: "matcher \<Rightarrow> chunk list \<Rightarrow> jsval list \<Rightarrow> nat \<Rightarrow> nat \<Rightarrow> int \<Rightarrow> ctx \<Rightarrow> result"
  and lazy_loop :: "matcher \<Rightarrow> chunk list \<Rightarrow> jsval list \<Rightarrow> nat \<Rightarrow> nat \<Rightarrow> nat \<Rightarrow> ctx \<Rightarrow> result"
where
  "submatch m chunks x ci xi j =
     (if ci \<ge> length chunks \<and> xi \<ge> length x then (Match, j)
      else if ci \<ge> length chunks then (NoMatch, j)
      else if chunk_type (chunks ! ci) = Some T_greedy then
        greedy_loop m chunks x ci xi (int (length x) - int xi - int (fixlength chunks ci)) j
      else if chunk_type (chunks ! ci) = Some T_lazy then
        lazy_loop m chunks x ci xi 0 j
      else
        (case chunks ! ci of
           Fx ps \<Rightarrow>
             if int (length ps) > int (length x) - int xi then (NoMatch, j)
             else
               (case fixed_loop m ps x xi j of
                  (Match, j') \<Rightarrow> submatch m chunks x (ci + 1) (xi + length ps) j'
                | (NoMatch, j') \<Rightarrow> (NoMatch, j')
                | (TypeError, j') \<Rightarrow> (TypeError, j'))
         | Rp e \<Rightarrow>
             if 2 > int (length x) - int xi then (NoMatch, j) else (TypeError, j)))"
| "greedy_loop m chunks x ci xi replength j =
     (if replength \<ge> 0 then
        (case call_chunk m (chunks ! ci) (Arr (slice x xi (xi + nat replength))) j of
           (Match, j') \<Rightarrow>
             (case submatch m chunks x (ci + 1) (xi + nat replength) j' of
                (Match, j'') \<Rightarrow> (Match, j'')
              | (NoMatch, j'') \<Rightarrow> greedy_loop m chunks x ci xi (replength - 1) j''
              | (TypeError, j'') \<Rightarrow> (TypeError, j''))
         | (NoMatch, j') \<Rightarrow> greedy_loop m chunks x ci xi (replength - 1) j'
         | (TypeError, j') \<Rightarrow> (TypeError, j'))
      else (NoMatch, j))"
| "lazy_loop m chunks x ci xi replength j =
     (if replength \<le> length x then
        (case call_chunk m (chunks ! ci) (Arr (slice x xi (xi + replength))) j of
           (Match, j') \<Rightarrow>
             (case submatch m chunks x (ci + 1) (xi + replength) j' of
                (Match, j'') \<Rightarrow> (Match, j'')
              | (NoMatch, j'') \<Rightarrow> lazy_loop m chunks x ci xi (replength + 1) j''
              | (TypeError, j'') \<Rightarrow> (TypeError, j''))
         | (NoMatch, j') \<Rightarrow> lazy_loop m chunks x ci xi (replength + 1) j'
         | (TypeError, j') \<Rightarrow> (TypeError, j'))
      else (NoMatch, j))"
  by pat_completeness auto

text \<open>
  The search is well-founded: a call of \<^verbatim>\<open>submatch\<close> from a loop has a larger
  \<open>ci\<close>, and inside a loop \<^verbatim>\<open>replength\<close> runs towards its bound.
\<close>

definition submatch_measure ::
  "(matcher \<times> chunk list \<times> jsval list \<times> nat \<times> nat \<times> ctx) +
   (matcher \<times> chunk list \<times> jsval list \<times> nat \<times> nat \<times> int \<times> ctx) +
   (matcher \<times> chunk list \<times> jsval list \<times> nat \<times> nat \<times> nat \<times> ctx) \<Rightarrow> nat \<times> nat" where
  "submatch_measure a = (case a of
       Inl (m, chunks, x, ci, xi, j) \<Rightarrow> (2 * (length chunks - ci), 0)
     | Inr (Inl (m, chunks, x, ci, xi, replength, j)) \<Rightarrow>
         (2 * (length chunks - (ci + 1)) + 1, nat (replength + 1))
     | Inr (Inr (m, chunks, x, ci, xi, replength, j)) \<Rightarrow>
         (2 * (length chunks - (ci + 1)) + 1, length x + 1 - replength))"

lemma submatch_total: "submatch_greedy_loop_lazy_loop_dom a"
proof -
  have "All submatch_greedy_loop_lazy_loop_dom"
    by (relation "inv_image (less_than <*lex*> less_than) submatch_measure")
       (auto simp: submatch_measure_def)
  then show ?thesis by simp
qed

termination submatch
  by (rule allI) (rule submatch_total)

declare submatch.simps [simp del] greedy_loop.simps [simp del] lazy_loop.simps [simp del]

text \<open>The patterns a chunk list holds.\<close>

fun chunk_pats :: "chunk \<Rightarrow> pat set" where
  "chunk_pats (Fx ps) = set ps"
| "chunk_pats (Rp e) = {e}"

definition chunks_pats :: "chunk list \<Rightarrow> pat set" where
  "chunks_pats chunks = (\<Union>c \<in> set chunks. chunk_pats c)"

text \<open>
  \<^verbatim>\<open>x.length < min\<close> and \<^verbatim>\<open>x.length > max\<close>: a comparison with \<^verbatim>\<open>undefined\<close> is
  false, and \<^verbatim>\<open>false\<close> compares as 0.
\<close>

fun length_lt :: "nat \<Rightarrow> bound \<Rightarrow> bool" where
  "length_lt n B_undefined = False"
| "length_lt n B_false = (int n < 0)"
| "length_lt n (B_num k) = (int n < k)"

fun length_gt :: "nat \<Rightarrow> bound \<Rightarrow> bool" where
  "length_gt n B_undefined = False"
| "length_gt n B_false = (int n > 0)"
| "length_gt n (B_num k) = (int n > k)"

lemma or_loop_cong [fundef_cong]:
  assumes "args = args'" "x = x'" "j = j'"
    and "\<And>a jj. a \<in> set args' \<Longrightarrow> m a x' jj = m' a x' jj"
  shows "or_loop m args x j = or_loop m' args' x' j'"
  using assms(4) unfolding assms(1-3)
  by (induction args' arbitrary: j') (auto split: prod.splits outcome.splits)

lemma repeat_loop_cong [fundef_cong]:
  assumes "p = p'" "xs = xs'" "j = j'"
    and "\<And>e jj. e \<in> set xs' \<Longrightarrow> m p' e jj = m' p' e jj"
  shows "repeat_loop m p xs j = repeat_loop m' p' xs' j'"
  using assms(4) unfolding assms(1-3)
  by (induction xs' arbitrary: j') (auto split: prod.splits outcome.splits)

lemma fixed_loop_cong [fundef_cong]:
  assumes "ps = ps'" "x = x'" "i = i'" "j = j'"
    and "\<And>p y jj. p \<in> set ps' \<Longrightarrow> m p y jj = m' p y jj"
  shows "fixed_loop m ps x i j = fixed_loop m' ps' x' i' j'"
  using assms(5) unfolding assms(1-4)
  by (induction ps' arbitrary: i' j') (auto split: prod.splits outcome.splits)

lemma chunk_in_chunks_pats:
  "ci < length chunks \<Longrightarrow> chunks ! ci = Fx ps \<Longrightarrow> p \<in> set ps \<Longrightarrow> p \<in> chunks_pats chunks"
  "ci < length chunks \<Longrightarrow> chunks ! ci = Rp e \<Longrightarrow> e \<in> chunks_pats chunks"
  unfolding chunks_pats_def by (force dest: nth_mem)+

lemma call_chunk_agree:
  assumes "\<And>e y jj. e \<in> chunks_pats chunks \<Longrightarrow> m e y jj = m' e y jj" "ci < length chunks"
  shows "call_chunk m (chunks ! ci) y j = call_chunk m' (chunks ! ci) y j"
  using assms chunk_in_chunks_pats(2) [of ci chunks]
  by (auto simp: call_chunk_def split: chunk.splits)

lemma fixed_loop_agree:
  assumes "\<And>e y jj. e \<in> chunks_pats chunks \<Longrightarrow> m e y jj = m' e y jj"
    "ci < length chunks" "chunks ! ci = Fx ps"
  shows "fixed_loop m ps x i j = fixed_loop m' ps x i j"
  using assms chunk_in_chunks_pats(1) [of ci chunks ps]
  by (intro fixed_loop_cong) auto

lemma submatch_agree:
  assumes A: "\<And>e y jj. e \<in> chunks_pats chunks \<Longrightarrow> m e y jj = m' e y jj"
  shows "submatch m chunks x ci xi j = submatch m' chunks x ci xi j"
    and "ci < length chunks \<Longrightarrow>
      greedy_loop m chunks x ci xi r j = greedy_loop m' chunks x ci xi r j"
    and "ci < length chunks \<Longrightarrow>
      lazy_loop m chunks x ci xi n j = lazy_loop m' chunks x ci xi n j"
  using A
proof (induction m chunks x ci xi j and m chunks x ci xi r j and m chunks x ci xi n j
       rule: submatch_greedy_loop_lazy_loop.induct)
  case (1 m chunks x ci xi j)
  show ?case
  proof (cases "ci < length chunks")
    case False
    then show ?thesis by (simp add: submatch.simps [of _ chunks x ci xi j])
  next
    case True
    note lt = this
    show ?thesis
    proof (cases "chunks ! ci")
      case (Rp e)
      with 1 lt show ?thesis
        by (simp add: submatch.simps [of _ chunks x ci xi j])
    next
      case (Fx ps)
      have fl: "fixed_loop m ps x xi j = fixed_loop m' ps x xi j"
        using fixed_loop_agree [OF "1.prems" lt Fx] by simp
      show ?thesis
        using "1.IH"(3) "1.prems" lt Fx fl
        by (auto simp add: submatch.simps [of _ chunks x ci xi j]
            split: prod.splits outcome.splits)
    qed
  qed
next
  case (2 m chunks x ci xi r j)
  have cc: "\<And>y jj. call_chunk m (chunks ! ci) y jj = call_chunk m' (chunks ! ci) y jj"
    using call_chunk_agree [OF "2.prems"(2) "2.prems"(1)] by simp
  show ?case
    using 2 cc
    by (auto simp add: greedy_loop.simps [of _ chunks x ci xi r j]
        split: prod.splits outcome.splits)
next
  case (3 m chunks x ci xi n j)
  have cc: "\<And>y jj. call_chunk m (chunks ! ci) y jj = call_chunk m' (chunks ! ci) y jj"
    using call_chunk_agree [OF "3.prems"(2) "3.prems"(1)] by simp
  show ?case
    using 3 cc
    by (auto simp add: lazy_loop.simps [of _ chunks x ci xi n j]
        split: prod.splits outcome.splits)
qed

lemma submatch_cong [fundef_cong]:
  assumes "chunks = chunks'" "x = x'" "ci = ci'" "xi = xi'" "j = j'"
    and "\<And>e y jj. e \<in> chunks_pats chunks' \<Longrightarrow> m e y jj = m' e y jj"
  shows "submatch m chunks x ci xi j = submatch m' chunks' x' ci' xi' j'"
  unfolding assms(1-5) using submatch_agree(1) [of chunks' m m'] assms(6) by simp

lemma chunkify_loop_pats:
  "chunks_pats (chunkify_loop pred es fx result) = chunks_pats result \<union> set fx \<union> set es"
  by (induction es arbitrary: fx result) (auto simp: chunks_pats_def)

lemma chunkify_pats: "chunks_pats (chunkify ps pred) = set ps"
  by (simp add: chunkify_def chunkify_loop_pats) (simp add: chunks_pats_def)

lemma size_pat_elem: "a \<in> set ps \<Longrightarrow> size a < Suc (size_list size ps)"
  by (induction ps) auto

text \<open>
  The call \<^verbatim>\<open>p(x, j)\<close> of a pattern \<open>p\<close> with a context \<open>j\<close> that is not undefined
  (\<^verbatim>\<open>matchable\<close> replaces an undefined \<open>j\<close> by a fresh object first, see \<open>run\<close>).
\<close>

function pmatch :: "pat \<Rightarrow> jsval \<Rightarrow> ctx \<Rightarrow> result" where
  "pmatch P_any x j = (Match, j)"
| "pmatch (P_is object) x j = (if x = Prim object then (Match, j) else (NoMatch, j))"
| "pmatch P_number x j = (if typeof x = ''number'' then (Match, j) else (NoMatch, j))"
| "pmatch P_string x j = (if typeof x = ''string'' then (Match, j) else (NoMatch, j))"
| "pmatch P_boolean x j = (if typeof x = ''boolean'' then (Match, j) else (NoMatch, j))"
| "pmatch (P_or args) x j = or_loop pmatch args x j"
| "pmatch (P_lst ps) x j =
     (case x of
        Arr xs \<Rightarrow> submatch pmatch (chunkify ps is_rep) xs 0 0 j
      | Prim v \<Rightarrow> (NoMatch, j))"
| "pmatch (P_name str p) x j =
     (case pmatch p x j of
        (Match, j') \<Rightarrow> (Match, assign str x j')
      | (NoMatch, j') \<Rightarrow> (NoMatch, j')
      | (TypeError, j') \<Rightarrow> (TypeError, j'))"
| "pmatch (P_repeat p mn mx) x j =
     (case x of
        Arr xs \<Rightarrow>
          if mn \<noteq> B_false \<and> length_lt (length xs) mn then (NoMatch, j)
          else if mx \<noteq> B_false \<and> length_gt (length xs) mx then (NoMatch, j)
          else repeat_loop pmatch p xs j
      | Prim v \<Rightarrow> (NoMatch, j))"
| "pmatch (P_lazy p) x j = pmatch p x j"
| "pmatch (P_greedy p) x j = pmatch p x j"
| "pmatch (P_notfn s) x j = (TypeError, j)"
  by pat_completeness auto

text \<open>
  The recursion through nested patterns is well-founded: every closure called is one the
  calling closure was built from.
\<close>

lemma pmatch_total: "pmatch_dom (p, x, j)"
proof -
  have "All pmatch_dom"
    by (relation "measure (\<lambda>(p, x, j). size p)")
       (auto simp: chunkify_pats size_pat_elem)
  then show ?thesis by simp
qed

termination pmatch
  by (rule allI) (auto intro: pmatch_total)

text \<open>
  A top-level call \<^verbatim>\<open>p(x)\<close>: \<^verbatim>\<open>j\<close> is undefined and \<^verbatim>\<open>matchable\<close> makes it a fresh
  empty object. The call returns that object, returns \<^verbatim>\<open>false\<close>, or throws.
\<close>

datatype returned = Threw | Ret_false | Ret_ctx ctx

definition run :: "pat \<Rightarrow> jsval \<Rightarrow> returned" where
  "run p x = (case pmatch p x (object_of []) of
       (Match, j) \<Rightarrow> Ret_ctx j
     | (NoMatch, j) \<Rightarrow> Ret_false
     | (TypeError, j) \<Rightarrow> Threw)"

text \<open>
  A pattern is callable when no closure in it wraps a value that is not a function, that
  is, when no \<^verbatim>\<open>lazy\<close> or \<^verbatim>\<open>greedy\<close> in it was given a \<^verbatim>\<open>max\<close> without a
  \<^verbatim>\<open>min\<close>.
\<close>

fun callable :: "pat \<Rightarrow> bool" where
  "callable P_any = True"
| "callable (P_is v) = True"
| "callable P_number = True"
| "callable P_string = True"
| "callable P_boolean = True"
| "callable (P_or args) = list_all callable args"
| "callable (P_lst ps) = list_all callable ps"
| "callable (P_name str p) = callable p"
| "callable (P_repeat p mn mx) = callable p"
| "callable (P_lazy p) = callable p"
| "callable (P_greedy p) = callable p"
| "callable (P_notfn s) = False"

text \<open>What \<open>chunkify\<close> produces: single patterns that satisfy the predicate, and
  non-empty arrays of patterns that do not.\<close>

fun chunk_ok :: "(pat \<Rightarrow> bool) \<Rightarrow> chunk \<Rightarrow> bool" where
  "chunk_ok pred (Rp e) = pred e"
| "chunk_ok pred (Fx fx) = (fx \<noteq> [] \<and> list_all (\<lambda>p. \<not> pred p) fx)"

section \<open>The outcome of a call does not depend on the context\<close>

text \<open>
  The matchers only write to \<^verbatim>\<open>j\<close>; whether a call matches, fails or throws is the
  same for every context it is given.
\<close>

lemma call_chunk_pure:
  assumes "\<And>e y jj jj'. e \<in> chunks_pats chunks \<Longrightarrow> fst (m e y jj) = fst (m e y jj')"
    "ci < length chunks"
  shows "fst (call_chunk m (chunks ! ci) y j) = fst (call_chunk m (chunks ! ci) y j')"
  using assms chunk_in_chunks_pats(2) [of ci chunks]
  by (auto simp: call_chunk_def split: chunk.splits)

lemma or_loop_pure:
  assumes "\<And>a jj jj'. a \<in> set args \<Longrightarrow> fst (m a x jj) = fst (m a x jj')"
  shows "fst (or_loop m args x j) = fst (or_loop m args x j')"
  using assms
proof (induction args arbitrary: j j')
  case Nil
  then show ?case by simp
next
  case (Cons a args)
  obtain o1 j1 where r1: "m a x j = (o1, j1)" by (cases "m a x j")
  obtain o2 j2 where r2: "m a x j' = (o2, j2)" by (cases "m a x j'")
  have "o1 = o2" using Cons.prems [of a j j'] r1 r2 by simp
  moreover have "fst (or_loop m args x j1) = fst (or_loop m args x j2)"
    using Cons.IH [of j1 j2] Cons.prems by simp
  ultimately show ?case using r1 r2 by (cases o1) simp_all
qed

lemma repeat_loop_pure:
  assumes "\<And>e jj jj'. e \<in> set xs \<Longrightarrow> fst (m p e jj) = fst (m p e jj')"
  shows "fst (repeat_loop m p xs j) = fst (repeat_loop m p xs j')"
  using assms
proof (induction xs arbitrary: j j')
  case Nil
  then show ?case by simp
next
  case (Cons e xs)
  obtain o1 j1 where r1: "m p e j = (o1, j1)" by (cases "m p e j")
  obtain o2 j2 where r2: "m p e j' = (o2, j2)" by (cases "m p e j'")
  have "o1 = o2" using Cons.prems [of e j j'] r1 r2 by simp
  moreover have "fst (repeat_loop m p xs j1) = fst (repeat_loop m p xs j2)"
    using Cons.IH [of j1 j2] Cons.prems by simp
  ultimately show ?case using r1 r2 by (cases o1) simp_all
qed

lemma fixed_loop_pure:
  assumes "\<And>p y jj jj'. p \<in> set ps \<Longrightarrow> fst (m p y jj) = fst (m p y jj')"
  shows "fst (fixed_loop m ps x i j) = fst (fixed_loop m ps x i j')"
  using assms
proof (induction ps arbitrary: i j j')
  case Nil
  then show ?case by simp
next
  case (Cons p ps)
  obtain o1 j1 where r1: "m p (index x i) j = (o1, j1)" by (cases "m p (index x i) j")
  obtain o2 j2 where r2: "m p (index x i) j' = (o2, j2)" by (cases "m p (index x i) j'")
  have "o1 = o2" using Cons.prems [of p "index x i" j j'] r1 r2 by simp
  moreover have "fst (fixed_loop m ps x (i + 1) j1) = fst (fixed_loop m ps x (i + 1) j2)"
    using Cons.IH [of "i + 1" j1 j2] Cons.prems by simp
  ultimately show ?case using r1 r2 by (cases o1) simp_all
qed

lemma submatch_pure:
  assumes A: "\<And>e y jj jj'. e \<in> chunks_pats chunks \<Longrightarrow> fst (m e y jj) = fst (m e y jj')"
  shows "\<forall>j'. fst (submatch m chunks x ci xi j) = fst (submatch m chunks x ci xi j')"
    and "ci < length chunks \<Longrightarrow>
      \<forall>j'. fst (greedy_loop m chunks x ci xi r j) = fst (greedy_loop m chunks x ci xi r j')"
    and "ci < length chunks \<Longrightarrow>
      \<forall>j'. fst (lazy_loop m chunks x ci xi n j) = fst (lazy_loop m chunks x ci xi n j')"
  using A
proof (induction m chunks x ci xi j and m chunks x ci xi r j and m chunks x ci xi n j
       rule: submatch_greedy_loop_lazy_loop.induct)
  case (1 m chunks x ci xi j)
  show ?case
  proof (intro allI)
    fix j'
    show "fst (submatch m chunks x ci xi j) = fst (submatch m chunks x ci xi j')"
    proof (cases "ci < length chunks")
      case False
      then show ?thesis by (simp add: submatch.simps [of m chunks x ci xi])
    next
      case lt: True
      show ?thesis
      proof (cases "chunk_type (chunks ! ci) = Some T_greedy")
        case True
        then show ?thesis using "1.IH"(1) "1.prems" lt
          by (simp add: submatch.simps [of m chunks x ci xi])
      next
        case ng: False
        show ?thesis
        proof (cases "chunk_type (chunks ! ci) = Some T_lazy")
          case True
          then show ?thesis using "1.IH"(2) "1.prems" lt ng
            by (simp add: submatch.simps [of m chunks x ci xi])
        next
          case nl: False
          show ?thesis
          proof (cases "chunks ! ci")
            case (Rp e)
            then show ?thesis using lt ng nl
              by (simp add: submatch.simps [of m chunks x ci xi])
          next
            case (Fx ps)
            obtain o1 j1 where r1: "fixed_loop m ps x xi j = (o1, j1)"
              by (cases "fixed_loop m ps x xi j")
            obtain o2 j2 where r2: "fixed_loop m ps x xi j' = (o2, j2)"
              by (cases "fixed_loop m ps x xi j'")
            have "fst (fixed_loop m ps x xi j) = fst (fixed_loop m ps x xi j')"
              using "1.prems" chunk_in_chunks_pats(1) [OF lt Fx]
              by (intro fixed_loop_pure) blast
            then have oo: "o1 = o2" using r1 r2 by simp
            show ?thesis
            proof (cases "int (length ps) > int (length x) - int xi")
              case True
              then show ?thesis using lt ng nl Fx
                by (simp add: submatch.simps [of m chunks x ci xi])
            next
              case False
              have "o1 = Match \<Longrightarrow> fst (submatch m chunks x (ci + 1) (xi + length ps) j1)
                  = fst (submatch m chunks x (ci + 1) (xi + length ps) j2)"
                using "1.IH"(3) [of ps Match j1] lt ng nl Fx False r1 "1.prems" by auto
              then show ?thesis using lt ng nl Fx False r1 r2 oo
                by (cases o1) (simp_all add: submatch.simps [of m chunks x ci xi])
            qed
          qed
        qed
      qed
    qed
  qed
next
  case (2 m chunks x ci xi r j)
  show ?case
  proof (intro allI)
    fix j'
    let ?y = "Arr (slice x xi (xi + nat r))"
    obtain o1 j1 where r1: "call_chunk m (chunks ! ci) ?y j = (o1, j1)"
      by (cases "call_chunk m (chunks ! ci) ?y j")
    obtain o2 j2 where r2: "call_chunk m (chunks ! ci) ?y j' = (o2, j2)"
      by (cases "call_chunk m (chunks ! ci) ?y j'")
    have oo: "o1 = o2"
      using call_chunk_pure [of chunks m ci ?y j j'] "2.prems" r1 r2 by simp
    obtain o3 j3 where r3: "submatch m chunks x (ci + 1) (xi + nat r) j1 = (o3, j3)"
      by (cases "submatch m chunks x (ci + 1) (xi + nat r) j1")
    obtain o4 j4 where r4: "submatch m chunks x (ci + 1) (xi + nat r) j2 = (o4, j4)"
      by (cases "submatch m chunks x (ci + 1) (xi + nat r) j2")
    show "fst (greedy_loop m chunks x ci xi r j) = fst (greedy_loop m chunks x ci xi r j')"
    proof (cases "r \<ge> 0")
      case False
      then show ?thesis by (simp add: greedy_loop.simps [of m chunks x ci xi r])
    next
      case ge: True
      show ?thesis
      proof (cases o1)
        case TypeError
        then show ?thesis using ge r1 r2 oo
          by (simp add: greedy_loop.simps [of m chunks x ci xi r])
      next
        case NoMatch
        then have "fst (greedy_loop m chunks x ci xi (r - 1) j1)
            = fst (greedy_loop m chunks x ci xi (r - 1) j2)"
          using "2.IH"(1) [of NoMatch j1] ge r1 "2.prems" by simp
        then show ?thesis using NoMatch ge r1 r2 oo
          by (simp add: greedy_loop.simps [of m chunks x ci xi r])
      next
        case Match
        then have o34: "o3 = o4"
          using "2.IH"(2) [of Match j1] ge r1 r3 r4 "2.prems" by (auto dest: spec [of _ j2])
        have "o3 = NoMatch \<Longrightarrow> fst (greedy_loop m chunks x ci xi (r - 1) j3)
            = fst (greedy_loop m chunks x ci xi (r - 1) j4)"
          using "2.IH"(3) [of Match j1 NoMatch j3] Match ge r1 r3 "2.prems" by simp
        then show ?thesis using Match ge r1 r2 r3 r4 oo o34
          by (cases o3) (simp_all add: greedy_loop.simps [of m chunks x ci xi r])
      qed
    qed
  qed
next
  case (3 m chunks x ci xi n j)
  show ?case
  proof (intro allI)
    fix j'
    let ?y = "Arr (slice x xi (xi + n))"
    obtain o1 j1 where r1: "call_chunk m (chunks ! ci) ?y j = (o1, j1)"
      by (cases "call_chunk m (chunks ! ci) ?y j")
    obtain o2 j2 where r2: "call_chunk m (chunks ! ci) ?y j' = (o2, j2)"
      by (cases "call_chunk m (chunks ! ci) ?y j'")
    have oo: "o1 = o2"
      using call_chunk_pure [of chunks m ci ?y j j'] "3.prems" r1 r2 by simp
    obtain o3 j3 where r3: "submatch m chunks x (ci + 1) (xi + n) j1 = (o3, j3)"
      by (cases "submatch m chunks x (ci + 1) (xi + n) j1")
    obtain o4 j4 where r4: "submatch m chunks x (ci + 1) (xi + n) j2 = (o4, j4)"
      by (cases "submatch m chunks x (ci + 1) (xi + n) j2")
    show "fst (lazy_loop m chunks x ci xi n j) = fst (lazy_loop m chunks x ci xi n j')"
    proof (cases "n \<le> length x")
      case False
      then show ?thesis by (simp add: lazy_loop.simps [of m chunks x ci xi n])
    next
      case ge: True
      show ?thesis
      proof (cases o1)
        case TypeError
        then show ?thesis using ge r1 r2 oo
          by (simp add: lazy_loop.simps [of m chunks x ci xi n])
      next
        case NoMatch
        then have "fst (lazy_loop m chunks x ci xi (n + 1) j1)
            = fst (lazy_loop m chunks x ci xi (n + 1) j2)"
          using "3.IH"(1) [of NoMatch j1] ge r1 "3.prems" by simp
        then show ?thesis using NoMatch ge r1 r2 oo
          by (simp add: lazy_loop.simps [of m chunks x ci xi n])
      next
        case Match
        then have o34: "o3 = o4"
          using "3.IH"(2) [of Match j1] ge r1 r3 r4 "3.prems" by (auto dest: spec [of _ j2])
        have "o3 = NoMatch \<Longrightarrow> fst (lazy_loop m chunks x ci xi (n + 1) j3)
            = fst (lazy_loop m chunks x ci xi (n + 1) j4)"
          using "3.IH"(3) [of Match j1 NoMatch j3] Match ge r1 r3 "3.prems" by simp
        then show ?thesis using Match ge r1 r2 r3 r4 oo o34
          by (cases o3) (simp_all add: lazy_loop.simps [of m chunks x ci xi n])
      qed
    qed
  qed
qed

lemma pmatch_pure: "fst (pmatch p x j) = fst (pmatch p x j')"
proof (induction p x j arbitrary: j' rule: pmatch.induct)
  case (6 args x j)
  then show ?case by (simp add: or_loop_pure)
next
  case (7 ps x j)
  show ?case
  proof (cases x)
    case (Prim v)
    then show ?thesis by simp
  next
    case (Arr xs)
    then show ?thesis
      using submatch_pure(1) [of "chunkify ps is_rep" pmatch xs 0 0 j] 7 by simp
  qed
next
  case (8 str p x j)
  from 8 [of j'] show ?case by (auto split: prod.splits outcome.splits)
next
  case (9 p mn mx x j)
  show ?case
  proof (cases x)
    case (Prim v)
    then show ?thesis by simp
  next
    case (Arr xs)
    then show ?thesis
      using repeat_loop_pure [of xs pmatch p j j'] 9 by simp
  qed
qed simp_all

section \<open>Callable patterns do not throw\<close>

lemma chunkify_loop_ok:
  "list_all (chunk_ok pred) result \<Longrightarrow> list_all (\<lambda>p. \<not> pred p) fx \<Longrightarrow>
   list_all (chunk_ok pred) (chunkify_loop pred es fx result)"
  by (induction es arbitrary: fx result) auto

lemma chunkify_ok: "list_all (chunk_ok pred) (chunkify ps pred)"
  by (simp add: chunkify_def chunkify_loop_ok)

lemma chunk_ok_nth:
  "list_all (chunk_ok pred) chunks \<Longrightarrow> ci < length chunks \<Longrightarrow> chunk_ok pred (chunks ! ci)"
  by (simp add: list_all_length)

lemma typed_chunk_is_Rp: "chunk_type c = Some t \<Longrightarrow> \<exists>e. c = Rp e \<and> pattern_type e = Some t"
  by (cases c) auto

lemma call_chunk_no_throw:
  assumes "\<And>e y jj. e \<in> chunks_pats chunks \<Longrightarrow> fst (m e y jj) \<noteq> TypeError"
    "ci < length chunks" "chunks ! ci = Rp e"
  shows "fst (call_chunk m (chunks ! ci) y j) \<noteq> TypeError"
  using assms chunk_in_chunks_pats(2) [of ci chunks e]
  by (auto simp: call_chunk_def)

lemma or_loop_no_throw:
  assumes "\<And>a jj. a \<in> set args \<Longrightarrow> fst (m a x jj) \<noteq> TypeError"
  shows "fst (or_loop m args x j) \<noteq> TypeError"
  using assms
proof (induction args arbitrary: j)
  case Nil
  then show ?case by simp
next
  case (Cons a args)
  obtain o1 j1 where r1: "m a x j = (o1, j1)" by (cases "m a x j")
  have "o1 \<noteq> TypeError" using Cons.prems [of a j] r1 by simp
  moreover have "fst (or_loop m args x j1) \<noteq> TypeError"
    using Cons.IH [of j1] Cons.prems by simp
  ultimately show ?case using r1 by (cases o1) simp_all
qed

lemma repeat_loop_no_throw:
  assumes "\<And>e jj. e \<in> set xs \<Longrightarrow> fst (m p e jj) \<noteq> TypeError"
  shows "fst (repeat_loop m p xs j) \<noteq> TypeError"
  using assms
proof (induction xs arbitrary: j)
  case Nil
  then show ?case by simp
next
  case (Cons e xs)
  obtain o1 j1 where r1: "m p e j = (o1, j1)" by (cases "m p e j")
  have "o1 \<noteq> TypeError" using Cons.prems [of e j] r1 by simp
  moreover have "fst (repeat_loop m p xs j1) \<noteq> TypeError"
    using Cons.IH [of j1] Cons.prems by simp
  ultimately show ?case using r1 by (cases o1) simp_all
qed

lemma fixed_loop_no_throw:
  assumes "\<And>p y jj. p \<in> set ps \<Longrightarrow> fst (m p y jj) \<noteq> TypeError"
  shows "fst (fixed_loop m ps x i j) \<noteq> TypeError"
  using assms
proof (induction ps arbitrary: i j)
  case Nil
  then show ?case by simp
next
  case (Cons p ps)
  obtain o1 j1 where r1: "m p (index x i) j = (o1, j1)" by (cases "m p (index x i) j")
  have "o1 \<noteq> TypeError" using Cons.prems [of p "index x i" j] r1 by simp
  moreover have "fst (fixed_loop m ps x (i + 1) j1) \<noteq> TypeError"
    using Cons.IH [of "i + 1" j1] Cons.prems by simp
  ultimately show ?case using r1 by (cases o1) simp_all
qed

lemma submatch_no_throw:
  assumes A: "\<And>e y jj. e \<in> chunks_pats chunks \<Longrightarrow> fst (m e y jj) \<noteq> TypeError"
    and W: "list_all (chunk_ok is_rep) chunks"
  shows "fst (submatch m chunks x ci xi j) \<noteq> TypeError"
    and "ci < length chunks \<Longrightarrow> chunks ! ci = Rp e \<Longrightarrow>
      fst (greedy_loop m chunks x ci xi r j) \<noteq> TypeError"
    and "ci < length chunks \<Longrightarrow> chunks ! ci = Rp e \<Longrightarrow>
      fst (lazy_loop m chunks x ci xi n j) \<noteq> TypeError"
  using A W
proof (induction m chunks x ci xi j and m chunks x ci xi r j and m chunks x ci xi n j
       arbitrary: and e and e rule: submatch_greedy_loop_lazy_loop.induct)
  case (1 m chunks x ci xi j)
  show ?case
  proof (cases "ci < length chunks")
    case False
    then show ?thesis by (simp add: submatch.simps [of m chunks x ci xi])
  next
    case lt: True
    have ok: "chunk_ok is_rep (chunks ! ci)" using chunk_ok_nth [OF "1.prems"(2) lt] .
    show ?thesis
    proof (cases "chunk_type (chunks ! ci) = Some T_greedy")
      case True
      then obtain e where "chunks ! ci = Rp e" using typed_chunk_is_Rp by blast
      then show ?thesis using "1.IH"(1) [of e] "1.prems" lt True
        by (simp add: submatch.simps [of m chunks x ci xi])
    next
      case ng: False
      show ?thesis
      proof (cases "chunk_type (chunks ! ci) = Some T_lazy")
        case True
        then obtain e where "chunks ! ci = Rp e" using typed_chunk_is_Rp by blast
        then show ?thesis using "1.IH"(2) [of e] "1.prems" lt ng True
          by (simp add: submatch.simps [of m chunks x ci xi])
      next
        case nl: False
        show ?thesis
        proof (cases "chunks ! ci")
          case (Rp e)
          then show ?thesis using ok ng nl by (simp add: is_rep_def)
        next
          case (Fx ps)
          obtain o1 j1 where r1: "fixed_loop m ps x xi j = (o1, j1)"
            by (cases "fixed_loop m ps x xi j")
          have "fst (fixed_loop m ps x xi j) \<noteq> TypeError"
            using "1.prems"(1) chunk_in_chunks_pats(1) [OF lt Fx]
            by (intro fixed_loop_no_throw) blast
          then have o1: "o1 \<noteq> TypeError" using r1 by simp
          show ?thesis
          proof (cases "int (length ps) > int (length x) - int xi")
            case True
            then show ?thesis using lt ng nl Fx
              by (simp add: submatch.simps [of m chunks x ci xi])
          next
            case False
            have "o1 = Match \<Longrightarrow>
                fst (submatch m chunks x (ci + 1) (xi + length ps) j1) \<noteq> TypeError"
              using "1.IH"(3) [of ps Match j1] lt ng nl Fx False r1 "1.prems" by auto
            then show ?thesis using lt ng nl Fx False r1 o1
              by (cases o1) (simp_all add: submatch.simps [of m chunks x ci xi])
          qed
        qed
      qed
    qed
  qed
next
  case (2 m chunks x ci xi r j)
  let ?y = "Arr (slice x xi (xi + nat r))"
  obtain o1 j1 where r1: "call_chunk m (chunks ! ci) ?y j = (o1, j1)"
    by (cases "call_chunk m (chunks ! ci) ?y j")
  have o1: "o1 \<noteq> TypeError"
    using call_chunk_no_throw [of chunks m ci e ?y j] "2.prems" r1 by simp
  obtain o3 j3 where r3: "submatch m chunks x (ci + 1) (xi + nat r) j1 = (o3, j3)"
    by (cases "submatch m chunks x (ci + 1) (xi + nat r) j1")
  show ?case
  proof (cases "r \<ge> 0")
    case False
    then show ?thesis by (simp add: greedy_loop.simps [of m chunks x ci xi r])
  next
    case ge: True
    show ?thesis
    proof (cases o1)
      case TypeError
      then show ?thesis using o1 by simp
    next
      case NoMatch
      then have "fst (greedy_loop m chunks x ci xi (r - 1) j1) \<noteq> TypeError"
        using "2.IH"(1) [of NoMatch j1 e] ge r1 "2.prems" by simp
      then show ?thesis using NoMatch ge r1
        by (simp add: greedy_loop.simps [of m chunks x ci xi r])
    next
      case Match
      then have o3: "o3 \<noteq> TypeError"
        using "2.IH"(2) [of Match j1] ge r1 r3 "2.prems" by auto
      have "o3 = NoMatch \<Longrightarrow> fst (greedy_loop m chunks x ci xi (r - 1) j3) \<noteq> TypeError"
        using "2.IH"(3) [of Match j1 NoMatch j3 e] Match ge r1 r3 "2.prems" by simp
      then show ?thesis using Match ge r1 r3 o3
        by (cases o3) (simp_all add: greedy_loop.simps [of m chunks x ci xi r])
    qed
  qed
next
  case (3 m chunks x ci xi n j)
  let ?y = "Arr (slice x xi (xi + n))"
  obtain o1 j1 where r1: "call_chunk m (chunks ! ci) ?y j = (o1, j1)"
    by (cases "call_chunk m (chunks ! ci) ?y j")
  have o1: "o1 \<noteq> TypeError"
    using call_chunk_no_throw [of chunks m ci e ?y j] "3.prems" r1 by simp
  obtain o3 j3 where r3: "submatch m chunks x (ci + 1) (xi + n) j1 = (o3, j3)"
    by (cases "submatch m chunks x (ci + 1) (xi + n) j1")
  show ?case
  proof (cases "n \<le> length x")
    case False
    then show ?thesis by (simp add: lazy_loop.simps [of m chunks x ci xi n])
  next
    case ge: True
    show ?thesis
    proof (cases o1)
      case TypeError
      then show ?thesis using o1 by simp
    next
      case NoMatch
      then have "fst (lazy_loop m chunks x ci xi (n + 1) j1) \<noteq> TypeError"
        using "3.IH"(1) [of NoMatch j1 e] ge r1 "3.prems" by simp
      then show ?thesis using NoMatch ge r1
        by (simp add: lazy_loop.simps [of m chunks x ci xi n])
    next
      case Match
      then have o3: "o3 \<noteq> TypeError"
        using "3.IH"(2) [of Match j1] ge r1 r3 "3.prems" by auto
      have "o3 = NoMatch \<Longrightarrow> fst (lazy_loop m chunks x ci xi (n + 1) j3) \<noteq> TypeError"
        using "3.IH"(3) [of Match j1 NoMatch j3 e] Match ge r1 r3 "3.prems" by simp
      then show ?thesis using Match ge r1 r3 o3
        by (cases o3) (simp_all add: lazy_loop.simps [of m chunks x ci xi n])
    qed
  qed
qed

lemma pmatch_no_throw: "callable p \<Longrightarrow> fst (pmatch p x j) \<noteq> TypeError"
proof (induction p x j rule: pmatch.induct)
  case (6 args x j)
  then show ?case by (simp add: or_loop_no_throw list_all_iff)
next
  case (7 ps x j)
  show ?case
  proof (cases x)
    case (Prim v)
    then show ?thesis by simp
  next
    case (Arr xs)
    have "\<And>e y jj. e \<in> chunks_pats (chunkify ps is_rep) \<Longrightarrow> fst (pmatch e y jj) \<noteq> TypeError"
      using 7 Arr by (simp add: chunkify_pats list_all_iff)
    then show ?thesis
      using submatch_no_throw(1) [of "chunkify ps is_rep" pmatch xs 0 0 j] Arr
      by (simp add: chunkify_ok)
  qed
next
  case (8 str p x j)
  then show ?case by (auto split: prod.splits outcome.splits)
next
  case (9 p mn mx x j)
  show ?case
  proof (cases x)
    case (Prim v)
    then show ?thesis by simp
  next
    case (Arr xs)
    then show ?thesis
      using repeat_loop_no_throw [of xs pmatch p j] 9 by simp
  qed
qed simp_all

section \<open>Compilation\<close>

text \<open>
  C7. Compilation is idempotent: \<^verbatim>\<open>match\<close> returns a compiled pattern (a function) as
  it is. Every value of \<^verbatim>\<open>match\<close> and of the constructors \<^verbatim>\<open>any\<close>, \<^verbatim>\<open>is\<close>,
  \<^verbatim>\<open>number\<close>, \<^verbatim>\<open>string\<close>, \<^verbatim>\<open>boolean\<close>, \<^verbatim>\<open>or\<close>, \<^verbatim>\<open>lst\<close>, \<^verbatim>\<open>name\<close>,
  \<^verbatim>\<open>lazy\<close> and \<^verbatim>\<open>greedy\<close> is such a function.
\<close>

theorem match_idempotent:
  "match (R_fn p) = p
   \<and> match (R_fn (match r)) = match r
   \<and> match (R_fn any) = any
   \<and> match (R_fn (is_lit v)) = is_lit v
   \<and> match (R_fn number) = number
   \<and> match (R_fn string) = string
   \<and> match (R_fn boolean) = boolean
   \<and> match (R_fn (or_pat args)) = or_pat args
   \<and> match (R_fn (lst ps)) = lst ps
   \<and> match (R_fn (name str q)) = name str q
   \<and> match (R_fn (lazy q mn mx)) = lazy q mn mx
   \<and> match (R_fn (greedy q mn mx)) = greedy q mn mx"
  by simp

section \<open>Greedy and lazy repetition on examples\<close>

text \<open>
  C3. The pattern \<^verbatim>\<open>lst(name('A', X()), name('B', greedy(is(2))))\<close>: on \<^verbatim>\<open>[1,2]\<close> it
  gives \<^verbatim>\<open>{A:[1], B:[2]}\<close> for \<^verbatim>\<open>X = lazy\<close> and \<^verbatim>\<open>{A:[1,2], B:[]}\<close> for
  \<^verbatim>\<open>X = greedy\<close>; on \<^verbatim>\<open>[1,2,3]\<close> it gives \<^verbatim>\<open>{A:[1,2,3], B:[]}\<close> for both.
\<close>

theorem greedy_lazy_divergence:
  "run (lst [R_fn (name ''A'' (R_fn (lazy (R_prim Undefined) B_undefined B_undefined))),
             R_fn (name ''B'' (R_fn (greedy (R_fn (is_lit (Num 2))) B_undefined B_undefined)))])
       (Arr [Prim (Num 1), Prim (Num 2)])
     = Ret_ctx (object_of [(''A'', Arr [Prim (Num 1)]), (''B'', Arr [Prim (Num 2)])])
   \<and> run (lst [R_fn (name ''A'' (R_fn (greedy (R_prim Undefined) B_undefined B_undefined))),
             R_fn (name ''B'' (R_fn (greedy (R_fn (is_lit (Num 2))) B_undefined B_undefined)))])
       (Arr [Prim (Num 1), Prim (Num 2)])
     = Ret_ctx (object_of [(''A'', Arr [Prim (Num 1), Prim (Num 2)]), (''B'', Arr [])])
   \<and> run (lst [R_fn (name ''A'' (R_fn (lazy (R_prim Undefined) B_undefined B_undefined))),
             R_fn (name ''B'' (R_fn (greedy (R_fn (is_lit (Num 2))) B_undefined B_undefined)))])
       (Arr [Prim (Num 1), Prim (Num 2), Prim (Num 3)])
     = Ret_ctx (object_of [(''A'', Arr [Prim (Num 1), Prim (Num 2), Prim (Num 3)]), (''B'', Arr [])])
   \<and> run (lst [R_fn (name ''A'' (R_fn (greedy (R_prim Undefined) B_undefined B_undefined))),
             R_fn (name ''B'' (R_fn (greedy (R_fn (is_lit (Num 2))) B_undefined B_undefined)))])
       (Arr [Prim (Num 1), Prim (Num 2), Prim (Num 3)])
     = Ret_ctx (object_of [(''A'', Arr [Prim (Num 1), Prim (Num 2), Prim (Num 3)]), (''B'', Arr [])])"
  by code_simp

section \<open>Termination\<close>

text \<open>
  C8. Every match operation terminates. \<open>pmatch_dom\<close> and
  \<open>submatch_greedy_loop_lazy_loop_dom\<close> are the accessible parts of the call relations
  of \<open>pmatch\<close> (a closure calling the closures it was built from) and of \<open>submatch\<close> with
  its two loops (the backtracking search over \<open>ci\<close>, \<open>xi\<close> and \<^verbatim>\<open>replength\<close>): every
  argument is accessible, so every call tree is finite. The call of a callable pattern
  returns a binding context or \<^verbatim>\<open>false\<close>.
\<close>

theorem match_terminates:
  "pmatch_dom (p, x, j)
   \<and> submatch_greedy_loop_lazy_loop_dom (Inl (pmatch, chunks, xs, ci, xi, j))
   \<and> submatch_greedy_loop_lazy_loop_dom (Inr (Inl (pmatch, chunks, xs, ci, xi, r, j)))
   \<and> submatch_greedy_loop_lazy_loop_dom (Inr (Inr (pmatch, chunks, xs, ci, xi, n, j)))
   \<and> (callable p \<longrightarrow> (\<exists>c. run p x = Ret_ctx c) \<or> run p x = Ret_false)"
proof -
  have "callable p \<Longrightarrow> (\<exists>c. run p x = Ret_ctx c) \<or> run p x = Ret_false"
    using pmatch_no_throw [of p x "object_of []"]
    by (auto simp: run_def split: prod.splits outcome.splits)
  then show ?thesis
    using pmatch_total [of p x j] submatch_total by blast
qed

theorem match_terminates_witness:
  "callable (lst [R_prim (Num 1), R_fn (greedy R_any_fn B_undefined B_undefined)])
   \<and> run (lst [R_prim (Num 1), R_fn (greedy R_any_fn B_undefined B_undefined)])
        (Arr [Prim (Num 1), Prim (Num 2)]) \<noteq> Threw"
proof -
  let ?p = "lst [R_prim (Num 1), R_fn (greedy R_any_fn B_undefined B_undefined)]"
  have c: "callable ?p" by code_simp
  have "(\<exists>c. run ?p (Arr [Prim (Num 1), Prim (Num 2)]) = Ret_ctx c)
      \<or> run ?p (Arr [Prim (Num 1), Prim (Num 2)]) = Ret_false"
    using match_terminates [where p = ?p and x = "Arr [Prim (Num 1), Prim (Num 2)]"] c
    by blast
  then show ?thesis using c by auto
qed

section \<open>Named patterns\<close>

lemma chunkify_loop_acc:
  "chunkify_loop pred es fx result = result @ chunkify_loop pred es fx []"
proof (induction es arbitrary: fx result)
  case Nil
  then show ?case by simp
next
  case (Cons e es)
  show ?case
  proof (cases "pred e")
    case False
    then show ?thesis using Cons.IH [of "fx @ [e]" result] by simp
  next
    case True
    show ?thesis
    proof (cases "fx = []")
      case True
      with \<open>pred e\<close> show ?thesis
        using Cons.IH [of "[]" "result @ [Rp e]"] Cons.IH [of "[]" "[Rp e]"] by simp
    next
      case False
      with \<open>pred e\<close> show ?thesis
        using Cons.IH [of "[]" "result @ [Fx fx, Rp e]"] Cons.IH [of "[]" "[Fx fx, Rp e]"]
        by simp
    qed
  qed
qed

lemma chunkify_loop_rep:
  "pred e \<Longrightarrow> chunkify_loop pred (ps @ e # qs) fx [] =
     chunkify_loop pred ps fx [] @ Rp e # chunkify_loop pred qs [] []"
proof (induction ps arbitrary: fx)
  case Nil
  show ?case
  proof (cases "fx = []")
    case True
    with Nil show ?thesis using chunkify_loop_acc [of pred qs "[]" "[Rp e]"] by simp
  next
    case False
    with Nil show ?thesis using chunkify_loop_acc [of pred qs "[]" "[Fx fx, Rp e]"] by simp
  qed
next
  case (Cons p ps)
  show ?case
  proof (cases "pred p")
    case False
    then show ?thesis using Cons.IH [of "fx @ [p]"] Cons.prems by simp
  next
    case True
    define acc where "acc = (if fx \<noteq> [] then [Fx fx] else []) @ [Rp p]"
    have "chunkify_loop pred ((p # ps) @ e # qs) fx [] = chunkify_loop pred (ps @ e # qs) [] acc"
      using True by (simp add: acc_def)
    also have "\<dots> = acc @ chunkify_loop pred (ps @ e # qs) [] []"
      by (rule chunkify_loop_acc)
    also have "\<dots> = acc @ chunkify_loop pred ps [] [] @ Rp e # chunkify_loop pred qs [] []"
      using Cons.IH [of "[]"] Cons.prems by simp
    also have "\<dots> = chunkify_loop pred ps [] acc @ Rp e # chunkify_loop pred qs [] []"
      using chunkify_loop_acc [of pred ps "[]" acc] by simp
    also have "chunkify_loop pred ps [] acc = chunkify_loop pred (p # ps) fx []"
      using True by (simp add: acc_def)
    finally show ?thesis .
  qed
qed

lemma chunkify_rep:
  "pred e \<Longrightarrow> chunkify (ps @ e # qs) pred = chunkify ps pred @ Rp e # chunkify qs pred"
  by (simp add: chunkify_def chunkify_loop_rep)

text \<open>
  C5. \<^verbatim>\<open>name(label, p)\<close> matches, fails and throws exactly when \<open>p\<close> does, for every
  label, candidate and context, and differs only in the assignment \<^verbatim>\<open>j[label] = x\<close> on
  success. For every label but \<^verbatim>\<open>__proto__\<close> the assignment writes \<open>x\<close> under
  \<open>label\<close> among the own properties of the context and changes nothing else; for
  \<^verbatim>\<open>__proto__\<close> it reaches the prototype setter and leaves the own properties as they
  are (\<^verbatim>\<open>name('__proto__')\<close> on \<^verbatim>\<open>1\<close> returns \<^verbatim>\<open>{}\<close>). \<^verbatim>\<open>name(label, p)\<close> has the
  \<^verbatim>\<open>type\<close> of \<open>p\<close>, so \<open>chunkify\<close> makes it a chunk of its own exactly when it does so
  for \<open>p\<close>, in particular for a \<^verbatim>\<open>greedy\<close> or \<^verbatim>\<open>lazy\<close> pattern.
\<close>

theorem name_transparent:
  "(let p = match (if r = R_prim Undefined then R_fn any else r) in
      pmatch (name label r) x j =
        (case pmatch p x j of
           (Match, j') \<Rightarrow> (Match, assign label x j')
         | (NoMatch, j') \<Rightarrow> (NoMatch, j')
         | (TypeError, j') \<Rightarrow> (TypeError, j'))
      \<and> fst (pmatch (name label r) x j) = fst (pmatch p x j)
      \<and> pattern_type (name label r) = pattern_type p
      \<and> binding (name label r) = Some label
      \<and> is_rep (name label r) = is_rep p
      \<and> (is_rep p \<longrightarrow>
           chunkify (ps @ name label r # qs) is_rep
             = chunkify ps is_rep @ Rp (name label r) # chunkify qs is_rep
           \<and> chunkify (ps @ p # qs) is_rep = chunkify ps is_rep @ Rp p # chunkify qs is_rep))
   \<and> is_rep (name label (R_fn (greedy q mn mx)))
   \<and> is_rep (name label (R_fn (lazy q mn mx)))
   \<and> (label \<noteq> ''__proto__'' \<longrightarrow>
        assign label x c = Object (AList.update label x (props c)) (proto c)
        \<and> map_of (props (assign label x c)) label = Some x
        \<and> (\<forall>k. k \<noteq> label \<longrightarrow> map_of (props (assign label x c)) k = map_of (props c) k))
   \<and> (map_of (props c) ''__proto__'' = None \<and> proto c \<noteq> Null_prototype \<longrightarrow>
        props (assign ''__proto__'' x c) = props c)
   \<and> pmatch (name ''__proto__'' (R_prim Undefined)) (Prim (Num 1)) (object_of [])
        = (Match, object_of [])
   \<and> pmatch (name ''A'' (R_fn (is_lit (Num 1)))) (Prim (Num 1)) (object_of [])
        = (Match, object_of [(''A'', Prim (Num 1))])"
proof -
  define p where "p = match (if r = R_prim Undefined then R_fn any else r)"
  have n: "name label r = P_name label p"
    by (simp add: name_def p_def)
  have 1: "pmatch (name label r) x j =
     (case pmatch p x j of
        (Match, j') \<Rightarrow> (Match, assign label x j')
      | (NoMatch, j') \<Rightarrow> (NoMatch, j')
      | (TypeError, j') \<Rightarrow> (TypeError, j'))"
    by (simp add: n)
  have 2: "fst (pmatch (name label r) x j) = fst (pmatch p x j)"
    by (simp add: n split: prod.splits outcome.splits)
  have 3: "pattern_type (name label r) = pattern_type p"
    by (simp add: n)
  have 4: "is_rep (name label r) = is_rep p"
    by (simp add: is_rep_def 3)
  have b: "binding (name label r) = Some label"
    by (simp add: n)
  have 5: "is_rep (name label (R_fn (greedy q mn mx)))" "is_rep (name label (R_fn (lazy q mn mx)))"
    by (simp_all add: is_rep_def name_def greedy_def lazy_def)
  have 6: "is_rep p \<longrightarrow>
        chunkify (ps @ name label r # qs) is_rep
          = chunkify ps is_rep @ Rp (name label r) # chunkify qs is_rep
        \<and> chunkify (ps @ p # qs) is_rep = chunkify ps is_rep @ Rp p # chunkify qs is_rep"
    using chunkify_rep [of is_rep p ps qs] chunkify_rep [of is_rep "name label r" ps qs] 4
    by simp
  have 7: "label \<noteq> ''__proto__'' \<longrightarrow>
        assign label x c = Object (AList.update label x (props c)) (proto c)
        \<and> map_of (props (assign label x c)) label = Some x
        \<and> (\<forall>k. k \<noteq> label \<longrightarrow> map_of (props (assign label x c)) k = map_of (props c) k)"
    by (simp add: assign_def update_conv')
  have 8: "map_of (props c) ''__proto__'' = None \<and> proto c \<noteq> Null_prototype \<longrightarrow>
        props (assign ''__proto__'' x c) = props c"
    by (simp add: assign_def split: jsval.splits prim.splits)
  have 9: "pmatch (name ''__proto__'' (R_prim Undefined)) (Prim (Num 1)) (object_of [])
        = (Match, object_of [])"
    by code_simp
  have 10: "pmatch (name ''A'' (R_fn (is_lit (Num 1)))) (Prim (Num 1)) (object_of [])
        = (Match, object_of [(''A'', Prim (Num 1))])"
    by code_simp
  show ?thesis
    unfolding Let_def p_def [symmetric] using 1 2 3 b 4 5 6 7 8 9 10 by (intro conjI)
qed

theorem name_transparent_witness:
  "is_rep (greedy R_any_fn B_undefined B_undefined)
   \<and> chunkify ([is_lit (Num 1)] @ name ''A'' (R_fn (greedy R_any_fn B_undefined B_undefined))
        # [is_lit (Num 2)]) is_rep
       = [Fx [is_lit (Num 1)], Rp (name ''A'' (R_fn (greedy R_any_fn B_undefined B_undefined))),
          Fx [is_lit (Num 2)]]
   \<and> chunkify ([is_lit (Num 1)] @ greedy R_any_fn B_undefined B_undefined # [is_lit (Num 2)])
        is_rep
       = [Fx [is_lit (Num 1)], Rp (greedy R_any_fn B_undefined B_undefined),
          Fx [is_lit (Num 2)]]
   \<and> ''A'' \<noteq> ''__proto__''
   \<and> pmatch (is_lit (Num 1)) (Prim (Num 1)) (object_of []) = (Match, object_of [])
   \<and> pmatch (name ''A'' (R_fn (is_lit (Num 1)))) (Prim (Num 1)) (object_of [])
       = (Match, Object (AList.update ''A'' (Prim (Num 1)) (props (object_of [])))
                   (proto (object_of [])))
   \<and> map_of (props (snd (pmatch (name ''A'' (R_fn (is_lit (Num 1)))) (Prim (Num 1))
        (object_of [])))) ''A'' = Some (Prim (Num 1))
   \<and> map_of (props (object_of [])) ''__proto__'' = None
   \<and> proto (object_of []) \<noteq> Null_prototype
   \<and> props (assign ''__proto__'' (Arr [Prim (Num 1)]) (object_of [])) = props (object_of [])"
proof -
  let ?g = "greedy R_any_fn B_undefined B_undefined"
  let ?x = "Prim (Num 1)"
  let ?e = "object_of []"
  have r: "is_rep ?g" by code_simp
  have c: "chunkify [is_lit (Num 1)] is_rep = [Fx [is_lit (Num 1)]]"
    "chunkify [is_lit (Num 2)] is_rep = [Fx [is_lit (Num 2)]]" by code_simp+
  have m: "match (if R_fn ?g = R_prim Undefined then R_fn any else R_fn ?g) = ?g" by simp
  have "is_rep ?g \<longrightarrow>
      chunkify ([is_lit (Num 1)] @ name ''A'' (R_fn ?g) # [is_lit (Num 2)]) is_rep
          = chunkify [is_lit (Num 1)] is_rep @ Rp (name ''A'' (R_fn ?g))
              # chunkify [is_lit (Num 2)] is_rep
      \<and> chunkify ([is_lit (Num 1)] @ ?g # [is_lit (Num 2)]) is_rep
          = chunkify [is_lit (Num 1)] is_rep @ Rp ?g # chunkify [is_lit (Num 2)] is_rep"
    using name_transparent [where r = "R_fn ?g" and label = "''A''"
        and ps = "[is_lit (Num 1)]" and qs = "[is_lit (Num 2)]"
        and x = "Prim Undefined" and j = "object_of []" and q = R_any_fn
        and mn = B_undefined and mx = B_undefined and c = "object_of []"]
    unfolding Let_def m by blast
  with r have ch:
    "chunkify ([is_lit (Num 1)] @ name ''A'' (R_fn ?g) # [is_lit (Num 2)]) is_rep
       = [Fx [is_lit (Num 1)], Rp (name ''A'' (R_fn ?g)), Fx [is_lit (Num 2)]]"
    "chunkify ([is_lit (Num 1)] @ ?g # [is_lit (Num 2)]) is_rep
       = [Fx [is_lit (Num 1)], Rp ?g, Fx [is_lit (Num 2)]]"
    unfolding c by simp_all
  have l: "''A'' \<noteq> ''__proto__''" by simp
  have i: "pmatch (is_lit (Num 1)) ?x ?e = (Match, ?e)" by code_simp
  have m1: "match (if R_fn (is_lit (Num 1)) = R_prim Undefined then R_fn any
      else R_fn (is_lit (Num 1))) = is_lit (Num 1)" by simp
  note T = name_transparent [where r = "R_fn (is_lit (Num 1))" and label = "''A''"
        and ps = "[]" and qs = "[]" and x = ?x and j = ?e and q = R_any_fn
        and mn = B_undefined and mx = B_undefined and c = ?e]
  have w: "pmatch (name ''A'' (R_fn (is_lit (Num 1)))) ?x ?e = (Match, assign ''A'' ?x ?e)"
    using T unfolding Let_def m1 i by simp
  have a: "assign ''A'' ?x ?e = Object (AList.update ''A'' ?x (props ?e)) (proto ?e)"
    "map_of (props (assign ''A'' ?x ?e)) ''A'' = Some ?x"
    using T l by blast+
  have pr: "map_of (props ?e) ''__proto__'' = None" "proto ?e \<noteq> Null_prototype"
    by (simp_all add: object_of_def)
  have s: "props (assign ''__proto__'' (Arr [Prim (Num 1)]) ?e) = props ?e"
    using name_transparent [where r = "R_fn (is_lit (Num 1))" and label = "''A''"
        and ps = "[]" and qs = "[]" and x = "Arr [Prim (Num 1)]" and j = ?e and q = R_any_fn
        and mn = B_undefined and mx = B_undefined and c = ?e] pr
    by blast
  show ?thesis
    using r ch l i pr s a w by (intro conjI) simp_all
qed

section \<open>One-sided bounds\<close>

text \<open>
  C6. A \<^verbatim>\<open>min\<close> without a \<^verbatim>\<open>max\<close> is not reported: \<^verbatim>\<open>repeat(p, 1)\<close> returns a
  pattern, and \<^verbatim>\<open>greedy(is('x'), 1)\<close> matches \<^verbatim>\<open>['x','x','x']\<close> and fails on \<^verbatim>\<open>[]\<close>.
  Only a \<^verbatim>\<open>max\<close> without a \<^verbatim>\<open>min\<close> is reported: \<^verbatim>\<open>repeat\<close> returns the error
  string, and the \<^verbatim>\<open>greedy\<close> closure around it throws when called.
\<close>

theorem repeat_min_without_max:
  "repeat (R_fn p) (B_num 1) B_undefined = Inr (P_repeat p (B_num 1) B_undefined)
   \<and> greedy (R_fn p) (B_num 1) B_undefined = P_greedy (P_repeat p (B_num 1) B_undefined)
   \<and> run (greedy (R_fn (is_lit (Str ''x''))) (B_num 1) B_undefined)
        (Arr [Prim (Str ''x''), Prim (Str ''x''), Prim (Str ''x'')]) = Ret_ctx (object_of [])
   \<and> run (greedy (R_fn (is_lit (Str ''x''))) (B_num 1) B_undefined) (Arr []) = Ret_false
   \<and> repeat (R_fn p) B_undefined (B_num 1) = Inl ''repeat pattern error min/max''
   \<and> run (greedy (R_fn p) B_undefined (B_num 1)) x = Threw"
proof -
  have "run (greedy (R_fn (is_lit (Str ''x''))) (B_num 1) B_undefined)
        (Arr [Prim (Str ''x''), Prim (Str ''x''), Prim (Str ''x'')]) = Ret_ctx (object_of [])"
    by code_simp
  moreover have "run (greedy (R_fn (is_lit (Str ''x''))) (B_num 1) B_undefined) (Arr []) = Ret_false"
    by code_simp
  ultimately show ?thesis
    by (simp add: repeat_def greedy_def callee_def run_def)
qed

section \<open>The repeat matcher\<close>

text \<open>
  The range the specification gives a repeat, as it words it: \<open>[min, max]\<close> when both
  bounds are numbers, every length (\<open>0..\<infinity>\<close>) when both are omitted.
\<close>

fun spec_in_range :: "bound \<Rightarrow> bound \<Rightarrow> nat \<Rightarrow> bool" where
  "spec_in_range B_undefined B_undefined n = True"
| "spec_in_range (B_num a) (B_num b) n = (a \<le> int n \<and> int n \<le> b)"
| "spec_in_range mn mx n = False"

lemma run_Ret_ctx_iff: "(\<exists>c. run p x = Ret_ctx c) \<longleftrightarrow> fst (pmatch p x j) = Match"
  using pmatch_pure [of p x j "object_of []"]
  by (auto simp: run_def split: prod.splits outcome.splits)

lemma run_Ret_false_iff: "run p x = Ret_false \<longleftrightarrow> fst (pmatch p x j) = NoMatch"
  using pmatch_pure [of p x j "object_of []"]
  by (auto simp: run_def split: prod.splits outcome.splits)

lemma run_Threw_iff: "run p x = Threw \<longleftrightarrow> fst (pmatch p x j) = TypeError"
  using pmatch_pure [of p x j "object_of []"]
  by (auto simp: run_def split: prod.splits outcome.splits)

lemma repeat_loop_Match_iff:
  "fst (repeat_loop pmatch p xs j) = Match \<longleftrightarrow> (\<forall>e\<in>set xs. \<exists>c. run p e = Ret_ctx c)"
proof (induction xs arbitrary: j)
  case Nil
  then show ?case by simp
next
  case (Cons e xs)
  obtain o1 j1 where r1: "pmatch p e j = (o1, j1)" by (cases "pmatch p e j")
  have "(\<exists>c. run p e = Ret_ctx c) \<longleftrightarrow> o1 = Match"
    using run_Ret_ctx_iff [of p e j] r1 by simp
  then show ?case using Cons.IH [of j1] r1 by (cases o1) simp_all
qed

lemma repeat_loop_short_circuit:
  "fst (repeat_loop m p ys j) \<noteq> Match \<Longrightarrow> repeat_loop m p (ys @ zs) j = repeat_loop m p ys j"
proof (induction ys arbitrary: j)
  case Nil
  then show ?case by simp
next
  case (Cons e ys)
  obtain o1 j1 where r1: "m p e j = (o1, j1)" by (cases "m p e j")
  show ?case using Cons.IH [of j1] Cons.prems r1 by (cases o1) simp_all
qed

lemma repeat_loop_first_failure:
  assumes "\<forall>y\<in>set ys. \<exists>c. run p y = Ret_ctx c" "run p e = Ret_false"
  shows "fst (repeat_loop pmatch p (ys @ [e]) j) = NoMatch"
  using assms(1)
proof (induction ys arbitrary: j)
  case Nil
  obtain o1 j1 where r1: "pmatch p e j = (o1, j1)" by (cases "pmatch p e j")
  then show ?case using assms(2) run_Ret_false_iff [of p e j] by simp
next
  case (Cons y ys)
  obtain o1 j1 where r1: "pmatch p y j = (o1, j1)" by (cases "pmatch p y j")
  then have "o1 = Match" using Cons.prems run_Ret_ctx_iff [of p y j] by simp
  then show ?case using Cons.IH [of j1] Cons.prems r1 by simp
qed

lemma P_repeat_array:
  "pmatch (P_repeat p mn mx) (Arr xs) j =
     (if (mn \<noteq> B_false \<and> length_lt (length xs) mn) \<or> (mx \<noteq> B_false \<and> length_gt (length xs) mx)
      then (NoMatch, j) else repeat_loop pmatch p xs j)"
  by simp

text \<open>
  C4. For \<^verbatim>\<open>repeat(inner, min, max)\<close> with both bounds given or both omitted (and so
  for the \<^verbatim>\<open>greedy\<close> and \<^verbatim>\<open>lazy\<close> closures around it): the call matches exactly when
  the candidate is an array, every element matches \<open>inner\<close> in a call of its own, and
  the length is in range. It returns \<^verbatim>\<open>false\<close> for a candidate that is not an array,
  for a length out of range, and at the first element that fails: the result is that of
  the loop over the elements up to and including that one, whatever follows it.
\<close>

theorem repeat_contract:
  assumes "(mn = B_undefined \<and> mx = B_undefined) \<or> (\<exists>a b. mn = B_num a \<and> mx = B_num b)"
  shows "let p = match (if inner = R_prim Undefined then R_fn any else inner) in
    \<exists>rp. repeat inner mn mx = Inr rp
     \<and> greedy inner mn mx = P_greedy rp \<and> lazy inner mn mx = P_lazy rp
     \<and> (\<forall>x j. pmatch (P_greedy rp) x j = pmatch rp x j \<and> pmatch (P_lazy rp) x j = pmatch rp x j)
     \<and> (\<forall>x j. fst (pmatch rp x j) = Match \<longleftrightarrow>
           (\<exists>xs. x = Arr xs \<and> (\<forall>e\<in>set xs. \<exists>c. run p e = Ret_ctx c) \<and> spec_in_range mn mx (length xs)))
     \<and> (\<forall>v j. pmatch rp (Prim v) j = (NoMatch, j))
     \<and> (\<forall>xs j. \<not> spec_in_range mn mx (length xs) \<longrightarrow> pmatch rp (Arr xs) j = (NoMatch, j))
     \<and> (\<forall>ys e zs j. spec_in_range mn mx (length (ys @ e # zs))
            \<and> (\<forall>y\<in>set ys. \<exists>c. run p y = Ret_ctx c) \<and> run p e = Ret_false \<longrightarrow>
          fst (pmatch rp (Arr (ys @ e # zs)) j) = NoMatch
          \<and> pmatch rp (Arr (ys @ e # zs)) j = repeat_loop pmatch p (ys @ [e]) j)"
proof -
  define p where "p = match (if inner = R_prim Undefined then R_fn any else inner)"
  define mn' mx' where "mn' = (if mn = B_undefined then B_false else mn)"
    and "mx' = (if mn = B_undefined then B_false else mx)"
  define rp where "rp = P_repeat p mn' mx'"
  have rep: "repeat inner mn mx = Inr rp"
    using assms by (auto simp: repeat_def rp_def p_def mn'_def mx'_def)
  have chk: "((mn' \<noteq> B_false \<and> length_lt n mn') \<or> (mx' \<noteq> B_false \<and> length_gt n mx'))
      \<longleftrightarrow> \<not> spec_in_range mn mx n" for n
    using assms by (auto simp: mn'_def mx'_def)
  have arr: "pmatch rp (Arr xs) j =
      (if spec_in_range mn mx (length xs) then repeat_loop pmatch p xs j else (NoMatch, j))" for xs j
    unfolding rp_def P_repeat_array chk by simp
  have prim: "pmatch rp (Prim v) j = (NoMatch, j)" for v j
    by (simp add: rp_def)
  have iff: "fst (pmatch rp x j) = Match \<longleftrightarrow>
           (\<exists>xs. x = Arr xs \<and> (\<forall>e\<in>set xs. \<exists>c. run p e = Ret_ctx c) \<and> spec_in_range mn mx (length xs))"
    for x j
  proof (cases x)
    case (Prim v)
    then show ?thesis by (simp add: prim)
  next
    case (Arr xs)
    then show ?thesis by (simp add: arr repeat_loop_Match_iff)
  qed
  have sc: "fst (pmatch rp (Arr (ys @ e # zs)) j) = NoMatch
          \<and> pmatch rp (Arr (ys @ e # zs)) j = repeat_loop pmatch p (ys @ [e]) j"
    if "spec_in_range mn mx (length (ys @ e # zs))" "\<forall>y\<in>set ys. \<exists>c. run p y = Ret_ctx c"
      "run p e = Ret_false" for ys e zs j
  proof -
    have f: "fst (repeat_loop pmatch p (ys @ [e]) j) = NoMatch"
      using repeat_loop_first_failure [OF that(2,3)] .
    then have "repeat_loop pmatch p ((ys @ [e]) @ zs) j = repeat_loop pmatch p (ys @ [e]) j"
      by (intro repeat_loop_short_circuit) simp
    then show ?thesis using that(1) f by (simp add: arr)
  qed
  have wr: "greedy inner mn mx = P_greedy rp" "lazy inner mn mx = P_lazy rp"
    by (simp_all add: greedy_def lazy_def rep callee_def)
  have "\<exists>rp. repeat inner mn mx = Inr rp
     \<and> greedy inner mn mx = P_greedy rp \<and> lazy inner mn mx = P_lazy rp
     \<and> (\<forall>x j. pmatch (P_greedy rp) x j = pmatch rp x j \<and> pmatch (P_lazy rp) x j = pmatch rp x j)
     \<and> (\<forall>x j. fst (pmatch rp x j) = Match \<longleftrightarrow>
           (\<exists>xs. x = Arr xs \<and> (\<forall>e\<in>set xs. \<exists>c. run p e = Ret_ctx c) \<and> spec_in_range mn mx (length xs)))
     \<and> (\<forall>v j. pmatch rp (Prim v) j = (NoMatch, j))
     \<and> (\<forall>xs j. \<not> spec_in_range mn mx (length xs) \<longrightarrow> pmatch rp (Arr xs) j = (NoMatch, j))
     \<and> (\<forall>ys e zs j. spec_in_range mn mx (length (ys @ e # zs))
            \<and> (\<forall>y\<in>set ys. \<exists>c. run p y = Ret_ctx c) \<and> run p e = Ret_false \<longrightarrow>
          fst (pmatch rp (Arr (ys @ e # zs)) j) = NoMatch
          \<and> pmatch rp (Arr (ys @ e # zs)) j = repeat_loop pmatch p (ys @ [e]) j)"
    apply (rule exI [of _ rp])
    apply (intro conjI allI impI)
    subgoal by (rule rep)
    subgoal by (rule wr)
    subgoal by (rule wr)
    subgoal by simp
    subgoal by simp
    subgoal by (rule iff)
    subgoal by (rule prim)
    subgoal by (simp add: arr)
    subgoal using sc by blast
    subgoal using sc by blast
    done
  then show ?thesis unfolding p_def Let_def .
qed

theorem repeat_contract_witness:
  "((B_num 1 = B_undefined \<and> B_num 2 = B_undefined) \<or> (\<exists>a b. B_num 1 = B_num a \<and> B_num 2 = B_num b))
   \<and> fst (pmatch (greedy (R_fn (is_lit (Str ''x''))) (B_num 1) (B_num 2))
        (Arr [Prim (Str ''x'')]) (object_of [])) = Match
   \<and> fst (pmatch (greedy (R_fn (is_lit (Str ''x''))) (B_num 1) (B_num 2))
        (Arr [Prim (Str ''x''), Prim (Str ''x'')]) (object_of [])) = Match
   \<and> fst (pmatch (greedy (R_fn (is_lit (Str ''x''))) (B_num 1) (B_num 2)) (Arr []) (object_of [])) \<noteq> Match
   \<and> fst (pmatch (greedy (R_fn (is_lit (Str ''x''))) (B_num 1) (B_num 2))
        (Arr [Prim (Str ''x''), Prim (Str ''x''), Prim (Str ''x'')]) (object_of [])) \<noteq> Match"
proof -
  let ?inner = "R_fn (is_lit (Str ''x''))"
  let ?x = "Prim (Str ''x'')"
  have h: "(B_num 1 = B_undefined \<and> B_num 2 = B_undefined) \<or> (\<exists>a b. B_num 1 = B_num a \<and> B_num 2 = B_num b)"
    by simp
  have p: "match (if ?inner = R_prim Undefined then R_fn any else ?inner) = is_lit (Str ''x'')"
    by simp
  have "\<exists>rp. greedy ?inner (B_num 1) (B_num 2) = P_greedy rp
     \<and> (\<forall>x j. fst (pmatch rp x j) = Match \<longleftrightarrow>
           (\<exists>xs. x = Arr xs \<and> (\<forall>e\<in>set xs. \<exists>c. run (is_lit (Str ''x'')) e = Ret_ctx c)
              \<and> spec_in_range (B_num 1) (B_num 2) (length xs)))"
    using repeat_contract [OF h, of ?inner] unfolding Let_def p
    by (elim exE conjE) (rule exI, erule conjI, assumption)
  then obtain rp where
    g: "greedy ?inner (B_num 1) (B_num 2) = P_greedy rp"
    and iff: "\<And>x j. fst (pmatch rp x j) = Match \<longleftrightarrow>
           (\<exists>xs. x = Arr xs \<and> (\<forall>e\<in>set xs. \<exists>c. run (is_lit (Str ''x'')) e = Ret_ctx c)
              \<and> spec_in_range (B_num 1) (B_num 2) (length xs))"
    by (elim exE conjE) simp
  have w: "\<And>x j. pmatch (P_greedy rp) x j = pmatch rp x j" by simp
  have r: "run (is_lit (Str ''x'')) ?x = Ret_ctx (object_of [])" by code_simp
  have 1: "fst (pmatch rp (Arr [?x]) (object_of [])) = Match"
    by (subst iff) (simp add: r)
  have 2: "fst (pmatch rp (Arr [?x, ?x]) (object_of [])) = Match"
    by (subst iff) (simp add: r)
  have 3: "fst (pmatch rp (Arr []) (object_of [])) \<noteq> Match"
    by (subst iff) simp
  have 4: "fst (pmatch rp (Arr [?x, ?x, ?x]) (object_of [])) \<noteq> Match"
    by (subst iff) simp
  show ?thesis unfolding g w using h 1 2 3 4 by (intro conjI)
qed

text \<open>
  C10. \<^verbatim>\<open>repeat(inner, min)\<close> with \<^verbatim>\<open>max\<close> omitted returns a pattern (no error), and
  that pattern only has a lower bound: it matches exactly the arrays of length at least
  \<open>min\<close> whose elements all match \<open>inner\<close>; the comparison \<^verbatim>\<open>x.length > undefined\<close>
  is false for every length.
\<close>

theorem repeat_min_only:
  "let p = match (if inner = R_prim Undefined then R_fn any else inner) in
    \<exists>rp. repeat inner (B_num a) B_undefined = Inr rp
     \<and> greedy inner (B_num a) B_undefined = P_greedy rp
     \<and> lazy inner (B_num a) B_undefined = P_lazy rp
     \<and> (\<forall>x j. pmatch (P_greedy rp) x j = pmatch rp x j \<and> pmatch (P_lazy rp) x j = pmatch rp x j)
     \<and> (\<forall>x j. fst (pmatch rp x j) = Match \<longleftrightarrow>
           (\<exists>xs. x = Arr xs \<and> (\<forall>e\<in>set xs. \<exists>c. run p e = Ret_ctx c) \<and> a \<le> int (length xs)))"
proof -
  define p where "p = match (if inner = R_prim Undefined then R_fn any else inner)"
  define rp where "rp = P_repeat p (B_num a) B_undefined"
  have rep: "repeat inner (B_num a) B_undefined = Inr rp"
    by (simp add: repeat_def rp_def p_def)
  have iff: "fst (pmatch rp x j) = Match \<longleftrightarrow>
           (\<exists>xs. x = Arr xs \<and> (\<forall>e\<in>set xs. \<exists>c. run p e = Ret_ctx c) \<and> a \<le> int (length xs))"
    for x j
  proof (cases x)
    case (Prim v)
    then show ?thesis by (simp add: rp_def)
  next
    case (Arr xs)
    then show ?thesis by (auto simp add: rp_def repeat_loop_Match_iff)
  qed
  have wr: "greedy inner (B_num a) B_undefined = P_greedy rp"
    "lazy inner (B_num a) B_undefined = P_lazy rp"
    by (simp_all add: greedy_def lazy_def rep callee_def)
  have "\<exists>rp. repeat inner (B_num a) B_undefined = Inr rp
     \<and> greedy inner (B_num a) B_undefined = P_greedy rp
     \<and> lazy inner (B_num a) B_undefined = P_lazy rp
     \<and> (\<forall>x j. pmatch (P_greedy rp) x j = pmatch rp x j \<and> pmatch (P_lazy rp) x j = pmatch rp x j)
     \<and> (\<forall>x j. fst (pmatch rp x j) = Match \<longleftrightarrow>
           (\<exists>xs. x = Arr xs \<and> (\<forall>e\<in>set xs. \<exists>c. run p e = Ret_ctx c) \<and> a \<le> int (length xs)))"
    apply (rule exI [of _ rp])
    apply (intro conjI allI)
    subgoal by (rule rep)
    subgoal by (rule wr)
    subgoal by (rule wr)
    subgoal by simp
    subgoal by simp
    subgoal by (rule iff)
    done
  then show ?thesis unfolding p_def Let_def .
qed

theorem repeat_min_only_witness:
  "repeat (R_fn (is_lit (Str ''x''))) (B_num 1) B_undefined
     = Inr (P_repeat (P_is (Str ''x'')) (B_num 1) B_undefined)
   \<and> fst (pmatch (P_repeat (P_is (Str ''x'')) (B_num 1) B_undefined)
        (Arr [Prim (Str ''x''), Prim (Str ''x''), Prim (Str ''x'')]) (object_of [])) = Match
   \<and> fst (pmatch (P_repeat (P_is (Str ''x'')) (B_num 1) B_undefined) (Arr []) (object_of [])) \<noteq> Match"
proof -
  let ?inner = "R_fn (is_lit (Str ''x''))"
  let ?x = "Prim (Str ''x'')"
  have p: "match (if ?inner = R_prim Undefined then R_fn any else ?inner) = is_lit (Str ''x'')"
    by simp
  have "\<exists>rp. repeat ?inner (B_num 1) B_undefined = Inr rp
     \<and> (\<forall>x j. fst (pmatch rp x j) = Match \<longleftrightarrow>
           (\<exists>xs. x = Arr xs \<and> (\<forall>e\<in>set xs. \<exists>c. run (is_lit (Str ''x'')) e = Ret_ctx c)
              \<and> 1 \<le> int (length xs)))"
    using repeat_min_only [of ?inner 1] unfolding Let_def p
    by (elim exE conjE) (rule exI, erule conjI, assumption)
  then obtain rp where
    rep: "repeat ?inner (B_num 1) B_undefined = Inr rp"
    and iff: "\<And>x j. fst (pmatch rp x j) = Match \<longleftrightarrow>
           (\<exists>xs. x = Arr xs \<and> (\<forall>e\<in>set xs. \<exists>c. run (is_lit (Str ''x'')) e = Ret_ctx c)
              \<and> 1 \<le> int (length xs))"
    by (elim exE conjE) simp
  have rp: "rp = P_repeat (P_is (Str ''x'')) (B_num 1) B_undefined"
    using rep by (simp add: repeat_def is_lit_def)
  have r: "run (is_lit (Str ''x'')) ?x = Ret_ctx (object_of [])" by code_simp
  have 1: "fst (pmatch rp (Arr [?x, ?x, ?x]) (object_of [])) = Match"
    by (subst iff) (simp add: r)
  have 3: "fst (pmatch rp (Arr []) (object_of [])) \<noteq> Match"
    by (subst iff) simp
  show ?thesis using rep 1 3 unfolding rp by (intro conjI)
qed

section \<open>Dispatch\<close>

text \<open>
  \<^verbatim>\<open>select(x, clauses, fallback)\<close>. The flat array \<^verbatim>\<open>clauses\<close> holds patterns and
  handler functions; a handler takes the binding context and returns a value. The call
  returns a value (\<^verbatim>\<open>false\<close> when nothing matches and there is no fallback), throws
  the \<^verbatim>\<open>Error\<close> of the arity check, or throws a TypeError (a pattern that throws, or
  \<^verbatim>\<open>func\<close> undefined). A handler where a pattern is expected, or a pattern where a
  handler is expected, is outside the model (\<open>Sel_unmodelled\<close>).
\<close>

datatype item = Pattern pat | Handler "ctx \<Rightarrow> jsval"

datatype selected = Sel_error string | Sel_type_error | Sel_unmodelled | Sel_return jsval

function select_loop :: "jsval \<Rightarrow> item list \<Rightarrow> (jsval \<Rightarrow> jsval) option \<Rightarrow> nat \<Rightarrow> selected" where
  "select_loop x clauses fallback i =
     (if i < length clauses then
        (case clauses ! i of
           Pattern match' \<Rightarrow>
             (case run match' x of
                Ret_ctx m \<Rightarrow>
                  (if i + 1 < length clauses then
                     (case clauses ! (i + 1) of
                        Handler func \<Rightarrow> Sel_return (func m)
                      | Pattern q \<Rightarrow> Sel_unmodelled)
                   else Sel_type_error)
              | Ret_false \<Rightarrow> select_loop x clauses fallback (i + 2)
              | Threw \<Rightarrow> Sel_type_error)
         | Handler h \<Rightarrow> Sel_unmodelled)
      else
        (case fallback of
           Some f \<Rightarrow> Sel_return (f x)
         | None \<Rightarrow> Sel_return (Prim (Boolean False))))"
  by pat_completeness auto
termination
  by (relation "measure (\<lambda>(x, clauses, fallback, i). length clauses - i)") auto

declare select_loop.simps [simp del]

definition select :: "jsval \<Rightarrow> item list \<Rightarrow> (jsval \<Rightarrow> jsval) option \<Rightarrow> selected" where
  "select x clauses fallback =
     (if length clauses mod 2 \<noteq> 0 then Sel_error ''number of clauses is not even''
      else select_loop x clauses fallback 0)"

text \<open>The flat array of a list of (pattern, handler) pairs.\<close>

definition pairs_list :: "(pat \<times> (ctx \<Rightarrow> jsval)) list \<Rightarrow> item list" where
  "pairs_list pairs = concat (map (\<lambda>(p, h). [Pattern p, Handler h]) pairs)"

lemma length_pairs_list: "length (pairs_list pairs) = 2 * length pairs"
  by (induction pairs) (auto simp: pairs_list_def)

lemma pairs_list_append: "pairs_list (pre @ post) = pairs_list pre @ pairs_list post"
  by (simp add: pairs_list_def)

lemma pairs_list_nth:
  "pairs_list (pre @ (p, h) # post) ! (2 * length pre) = Pattern p"
  "pairs_list (pre @ (p, h) # post) ! (2 * length pre + 1) = Handler h"
  by (simp_all add: pairs_list_append nth_append length_pairs_list) (simp_all add: pairs_list_def)

lemma select_loop_found:
  assumes "run p x = Ret_ctx m"
  shows "select_loop x (pairs_list (pre @ (p, h) # post)) fallback (2 * length pre) = Sel_return (h m)"
  using assms pairs_list_nth [of pre p h post]
  by (subst select_loop.simps) (simp add: length_pairs_list)

lemma select_loop_skip:
  assumes "run p x = Ret_false"
  shows "select_loop x (pairs_list (pre @ (p, h) # post)) fallback (2 * length pre)
    = select_loop x (pairs_list ((pre @ [(p, h)]) @ post)) fallback (2 * length (pre @ [(p, h)]))"
  using assms pairs_list_nth [of pre p h post]
  by (subst select_loop.simps) (simp add: length_pairs_list)

lemma select_loop_pairs:
  assumes "\<forall>(p, h)\<in>set mid. run p x = Ret_false"
  shows "select_loop x (pairs_list (pre @ mid @ post)) fallback (2 * length pre)
    = select_loop x (pairs_list (pre @ mid @ post)) fallback (2 * length (pre @ mid))"
  using assms
proof (induction mid arbitrary: pre)
  case Nil
  then show ?case by simp
next
  case (Cons q mid)
  obtain p h where q: "q = (p, h)" by (cases q)
  have "run p x = Ret_false" using Cons.prems q by simp
  from select_loop_skip [OF this, of pre h "mid @ post" fallback]
  show ?case using Cons.IH [of "pre @ [q]"] Cons.prems q by simp
qed

lemma select_loop_end:
  "select_loop x (pairs_list pairs) fallback (2 * length pairs)
    = (case fallback of Some f \<Rightarrow> Sel_return (f x) | None \<Rightarrow> Sel_return (Prim (Boolean False)))"
  by (subst select_loop.simps) (simp add: length_pairs_list)

text \<open>
  C9. \<^verbatim>\<open>select\<close> with a clause array of odd length throws the Error
  \<^verbatim>\<open>'number of clauses is not even'\<close>, whatever the candidate and the patterns are, and
  that is not the value \<^verbatim>\<open>false\<close> of "no match". With the flat array of a list of
  pairs, the handler of the first pattern that matches is called with its binding
  context; the fallback is called (or \<^verbatim>\<open>false\<close> returned) when every pattern fails.
\<close>

theorem select_dispatch:
  "(length clauses mod 2 \<noteq> 0 \<longrightarrow>
      select x clauses fallback = Sel_error ''number of clauses is not even''
      \<and> select x clauses fallback \<noteq> Sel_return (Prim (Boolean False)))
   \<and> ((\<forall>(p, h)\<in>set pre. run p x = Ret_false) \<and> run p x = Ret_ctx m \<longrightarrow>
      select x (pairs_list (pre @ (p, h) # post)) fallback = Sel_return (h m))
   \<and> ((\<forall>(p, h)\<in>set pairs. run p x = Ret_false) \<longrightarrow>
      select x (pairs_list pairs) fallback =
        (case fallback of Some f \<Rightarrow> Sel_return (f x) | None \<Rightarrow> Sel_return (Prim (Boolean False))))"
proof (intro conjI impI)
  assume "length clauses mod 2 \<noteq> 0"
  then show "select x clauses fallback = Sel_error ''number of clauses is not even''"
    "select x clauses fallback \<noteq> Sel_return (Prim (Boolean False))"
    by (simp_all add: select_def)
next
  assume a: "(\<forall>(p, h)\<in>set pre. run p x = Ret_false) \<and> run p x = Ret_ctx m"
  have "select x (pairs_list (pre @ (p, h) # post)) fallback
      = select_loop x (pairs_list ([] @ pre @ (p, h) # post)) fallback (2 * length ([]::(pat \<times> (ctx \<Rightarrow> jsval)) list))"
    by (simp add: select_def length_pairs_list)
  also have "\<dots> = select_loop x (pairs_list ([] @ pre @ (p, h) # post)) fallback (2 * length ([] @ pre))"
    using a by (intro select_loop_pairs) simp
  also have "\<dots> = Sel_return (h m)"
    using a select_loop_found [of p x m pre h post fallback] by simp
  finally show "select x (pairs_list (pre @ (p, h) # post)) fallback = Sel_return (h m)" .
next
  assume a: "\<forall>(p, h)\<in>set pairs. run p x = Ret_false"
  have "select x (pairs_list pairs) fallback
      = select_loop x (pairs_list ([] @ pairs @ [])) fallback (2 * length ([]::(pat \<times> (ctx \<Rightarrow> jsval)) list))"
    by (simp add: select_def length_pairs_list)
  also have "\<dots> = select_loop x (pairs_list ([] @ pairs @ [])) fallback (2 * length ([] @ pairs))"
    using a by (intro select_loop_pairs) simp
  also have "\<dots> = (case fallback of Some f \<Rightarrow> Sel_return (f x) | None \<Rightarrow> Sel_return (Prim (Boolean False)))"
    using select_loop_end [of x pairs fallback] by simp
  finally show "select x (pairs_list pairs) fallback =
        (case fallback of Some f \<Rightarrow> Sel_return (f x) | None \<Rightarrow> Sel_return (Prim (Boolean False)))" .
qed

theorem select_dispatch_witness:
  "length [Pattern (is_lit (Num 1))] mod 2 \<noteq> 0
   \<and> select (Prim (Num 1)) [Pattern (is_lit (Num 1))] None
       = Sel_error ''number of clauses is not even''
   \<and> run (is_lit (Num 1)) (Prim (Num 0)) = Ret_false
   \<and> run (is_lit (Num 0)) (Prim (Num 0)) = Ret_ctx (object_of [])
   \<and> select (Prim (Num 0))
        (pairs_list ([(is_lit (Num 1), \<lambda>m. Prim (Str ''not ok''))]
           @ (is_lit (Num 0), \<lambda>m. Prim (Str ''ok'')) # []))
        (Some (\<lambda>x. Prim (Str ''fallback''))) = Sel_return (Prim (Str ''ok''))
   \<and> run (is_lit (Num 1)) (Prim (Num 2)) = Ret_false
   \<and> select (Prim (Num 2)) (pairs_list [(is_lit (Num 1), \<lambda>m. Prim (Str ''not ok''))])
        (Some (\<lambda>x. Prim (Str ''fallback''))) = Sel_return (Prim (Str ''fallback''))"
proof -
  have odd: "length [Pattern (is_lit (Num 1))] mod 2 \<noteq> 0" by simp
  have r10: "run (is_lit (Num 1)) (Prim (Num 0)) = Ret_false" by code_simp
  have r00: "run (is_lit (Num 0)) (Prim (Num 0)) = Ret_ctx (object_of [])" by code_simp
  have r12: "run (is_lit (Num 1)) (Prim (Num 2)) = Ret_false" by code_simp
  have 1: "select (Prim (Num 1)) [Pattern (is_lit (Num 1))] None
       = Sel_error ''number of clauses is not even''"
    using select_dispatch [of "[Pattern (is_lit (Num 1))]" "Prim (Num 1)" None] odd by blast
  have 2: "select (Prim (Num 0))
        (pairs_list ([(is_lit (Num 1), \<lambda>m. Prim (Str ''not ok''))]
           @ (is_lit (Num 0), \<lambda>m. Prim (Str ''ok'')) # []))
        (Some (\<lambda>x. Prim (Str ''fallback''))) = Sel_return (Prim (Str ''ok''))"
    using select_dispatch [of "[]" "Prim (Num 0)" "Some (\<lambda>x. Prim (Str ''fallback''))"
        "[(is_lit (Num 1), \<lambda>m. Prim (Str ''not ok''))]" "is_lit (Num 0)" "object_of []"
        "\<lambda>m. Prim (Str ''ok'')" "[]" "[]"] r10 r00
    by simp
  have 3: "select (Prim (Num 2)) (pairs_list [(is_lit (Num 1), \<lambda>m. Prim (Str ''not ok''))])
        (Some (\<lambda>x. Prim (Str ''fallback''))) = Sel_return (Prim (Str ''fallback''))"
    using select_dispatch [of "[]" "Prim (Num 2)" "Some (\<lambda>x. Prim (Str ''fallback''))"
        "[]" "is_lit (Num 0)" "object_of []" "\<lambda>m. Prim (Str ''ok'')" "[]"
        "[(is_lit (Num 1), \<lambda>m. Prim (Str ''not ok''))]"] r12
    by simp
  show ?thesis using odd 1 2 3 r10 r00 r12 by (intro conjI)
qed

section \<open>Bindings of abandoned branches\<close>










section \<open>The greedy branch of the search\<close>

text \<open>
  The search of the specification for a repetition chunk at \<open>(ci, xi)\<close>, over a given
  list of lengths \<open>r\<close> in the order they are tried: validate the slice
  \<open>[xi, xi+r)\<close> with the chunk's pattern; if it is valid, attempt the remaining chunks
  from \<open>(ci+1, xi+r)\<close>; if that succeeds the search succeeds, otherwise go on with the
  next length; fail when no length is left.
\<close>

fun spec_search :: "matcher \<Rightarrow> chunk list \<Rightarrow> jsval list \<Rightarrow> nat \<Rightarrow> nat \<Rightarrow> nat list \<Rightarrow> ctx \<Rightarrow> result" where
  "spec_search m chunks x ci xi [] j = (NoMatch, j)"
| "spec_search m chunks x ci xi (r # rs) j =
     (case call_chunk m (chunks ! ci) (Arr (slice x xi (xi + r))) j of
        (Match, j') \<Rightarrow>
          (case submatch m chunks x (ci + 1) (xi + r) j' of
             (Match, j'') \<Rightarrow> (Match, j'')
           | (NoMatch, j'') \<Rightarrow> spec_search m chunks x ci xi rs j''
           | (TypeError, j'') \<Rightarrow> (TypeError, j''))
      | (NoMatch, j') \<Rightarrow> spec_search m chunks x ci xi rs j'
      | (TypeError, j') \<Rightarrow> (TypeError, j'))"

lemma fold_keep: "fold (\<lambda>c fl. fl) cs a = a"
  by (induction cs) simp_all

lemma fixlength_greedy:
  "chunk_type (chunks ! ci) = Some T_greedy \<Longrightarrow> fixlength chunks ci = 0"
  by (simp add: fixlength_def fold_keep)

lemma greedy_loop_spec_search:
  "greedy_loop m chunks x ci xi r j
     = spec_search m chunks x ci xi (rev [0 ..< nat (r + 1)]) j"
proof (induction "nat (r + 1)" arbitrary: r j)
  case 0
  then have "\<not> r \<ge> 0" by simp
  then show ?case using 0 by (simp add: greedy_loop.simps [of m chunks x ci xi r])
next
  case (Suc k)
  then have ge: "r \<ge> 0" and k: "k = nat (r - 1 + 1)" and n: "nat (r + 1) = Suc (nat r)"
    by simp_all
  have l: "rev [0 ..< nat (r + 1)] = nat r # rev [0 ..< nat (r - 1 + 1)]"
    using ge by (simp add: n)
  show ?case
    unfolding l using ge Suc.hyps(1) [OF k]
    by (simp add: greedy_loop.simps [of m chunks x ci xi r] split: prod.splits outcome.splits)
qed

lemma spec_search_outcome:
  assumes pure1: "\<And>r j j'. fst (call_chunk m (chunks ! ci) (Arr (slice x xi (xi + r))) j)
      = fst (call_chunk m (chunks ! ci) (Arr (slice x xi (xi + r))) j')"
    and pure2: "\<And>r j j'. fst (submatch m chunks x (ci + 1) (xi + r) j)
      = fst (submatch m chunks x (ci + 1) (xi + r) j')"
    and nt1: "\<And>r j. fst (call_chunk m (chunks ! ci) (Arr (slice x xi (xi + r))) j) \<noteq> TypeError"
    and nt2: "\<And>r j. fst (submatch m chunks x (ci + 1) (xi + r) j) \<noteq> TypeError"
  shows "fst (spec_search m chunks x ci xi rs j) =
     (if \<exists>r\<in>set rs. fst (call_chunk m (chunks ! ci) (Arr (slice x xi (xi + r))) (object_of [])) = Match
          \<and> fst (submatch m chunks x (ci + 1) (xi + r) (object_of [])) = Match
      then Match else NoMatch)"
proof (induction rs arbitrary: j)
  case Nil
  then show ?case by simp
next
  case (Cons r rs)
  let ?y = "Arr (slice x xi (xi + r))"
  obtain o1 j1 where r1: "call_chunk m (chunks ! ci) ?y j = (o1, j1)"
    by (cases "call_chunk m (chunks ! ci) ?y j")
  obtain o3 j3 where r3: "submatch m chunks x (ci + 1) (xi + r) j1 = (o3, j3)"
    by (cases "submatch m chunks x (ci + 1) (xi + r) j1")
  have o1: "fst (call_chunk m (chunks ! ci) ?y (object_of [])) = o1" "o1 \<noteq> TypeError"
    using pure1 [of r j "object_of []"] nt1 [of r j] r1 by simp_all
  have o3: "fst (submatch m chunks x (ci + 1) (xi + r) (object_of [])) = o3" "o3 \<noteq> TypeError"
    using pure2 [of r j1 "object_of []"] nt2 [of r j1] r3 by simp_all
  show ?case
  proof (cases o1)
    case TypeError
    then show ?thesis using o1 by simp
  next
    case NoMatch
    then show ?thesis using Cons.IH [of j1] r1 o1 by simp
  next
    case Match
    then show ?thesis using Cons.IH [of j3] r1 r3 o1 o3 by (cases o3) simp_all
  qed
qed

lemma call_chunk_Rp: "call_chunk m (Rp e) y j = m e y j"
  by (simp add: call_chunk_def)

text \<open>
  C2. At a greedy chunk \<open>ci\<close> of a compiled sequence, \<^verbatim>\<open>fixlength\<close> is 0 (the loop
  that computes it tests \<^verbatim>\<open>chunks[ci]\<close>, the greedy chunk itself), so \<open>submatch\<close> is
  the search above over the lengths \<open>R, R-1, ..., 0\<close> with \<open>R = length x - xi\<close> (over no
  length when \<open>xi\<close> is beyond the end of the array). When the patterns of the sequence
  are callable, it matches iff some \<open>r\<close> in \<open>[0, R]\<close> has a valid slice and a
  successful rest, and returns \<^verbatim>\<open>false\<close> iff there is none.
\<close>

theorem greedy_chunk_search:
  assumes "chunks = chunkify ps is_rep" "ci < length chunks"
    "chunk_type (chunks ! ci) = Some T_greedy"
  shows "fixlength chunks ci = 0
    \<and> submatch pmatch chunks x ci xi j
        = spec_search pmatch chunks x ci xi (rev [0 ..< nat (int (length x) - int xi + 1)]) j
    \<and> (xi \<le> length x \<longrightarrow>
         rev [0 ..< nat (int (length x) - int xi + 1)] = rev [0 ..< Suc (length x - xi)])
    \<and> (\<exists>e. chunks ! ci = Rp e \<and>
         (list_all callable ps \<longrightarrow>
            (fst (submatch pmatch chunks x ci xi j) = Match \<longleftrightarrow>
               (\<exists>r. xi + r \<le> length x \<and> (\<exists>c. run e (Arr (slice x xi (xi + r))) = Ret_ctx c)
                    \<and> fst (submatch pmatch chunks x (ci + 1) (xi + r) (object_of [])) = Match))
          \<and> (fst (submatch pmatch chunks x ci xi j) = NoMatch \<longleftrightarrow>
               \<not> (\<exists>r. xi + r \<le> length x \<and> (\<exists>c. run e (Arr (slice x xi (xi + r))) = Ret_ctx c)
                    \<and> fst (submatch pmatch chunks x (ci + 1) (xi + r) (object_of [])) = Match))))"
proof -
  let ?rs = "rev [0 ..< nat (int (length x) - int xi + 1)]"
  have fl: "fixlength chunks ci = 0" using assms(3) by (rule fixlength_greedy)
  have sub: "submatch pmatch chunks x ci xi j = spec_search pmatch chunks x ci xi ?rs j"
    using assms(2,3) fl
    by (simp add: submatch.simps [of pmatch chunks x ci xi j] greedy_loop_spec_search)
  have rs: "xi \<le> length x \<Longrightarrow> ?rs = rev [0 ..< Suc (length x - xi)]"
  proof -
    assume "xi \<le> length x"
    then have "nat (int (length x) - int xi + 1) = Suc (length x - xi)" by linarith
    then show ?thesis by simp
  qed
  obtain e where e: "chunks ! ci = Rp e" using assms(3) typed_chunk_is_Rp by blast
  have mem: "r \<in> set ?rs \<longleftrightarrow> xi + r \<le> length x" for r
    by auto
  have sem: "fst (submatch pmatch chunks x ci xi j) =
     (if \<exists>r. xi + r \<le> length x \<and> (\<exists>c. run e (Arr (slice x xi (xi + r))) = Ret_ctx c)
                    \<and> fst (submatch pmatch chunks x (ci + 1) (xi + r) (object_of [])) = Match
      then Match else NoMatch)" if c: "list_all callable ps"
  proof -
    have nt: "\<And>p y jj. p \<in> chunks_pats chunks \<Longrightarrow> fst (pmatch p y jj) \<noteq> TypeError"
      using c assms(1) by (simp add: chunkify_pats list_all_iff pmatch_no_throw)
    have ok: "list_all (chunk_ok is_rep) chunks" using assms(1) by (simp add: chunkify_ok)
    have "fst (spec_search pmatch chunks x ci xi ?rs j) =
     (if \<exists>r\<in>set ?rs. fst (call_chunk pmatch (chunks ! ci) (Arr (slice x xi (xi + r))) (object_of [])) = Match
          \<and> fst (submatch pmatch chunks x (ci + 1) (xi + r) (object_of [])) = Match
      then Match else NoMatch)"
    proof (rule spec_search_outcome)
      show "fst (call_chunk pmatch (chunks ! ci) (Arr (slice x xi (xi + r))) j)
        = fst (call_chunk pmatch (chunks ! ci) (Arr (slice x xi (xi + r))) j')" for r j j'
        unfolding e call_chunk_Rp by (rule pmatch_pure)
      show "fst (submatch pmatch chunks x (ci + 1) (xi + r) j)
        = fst (submatch pmatch chunks x (ci + 1) (xi + r) j')" for r j j'
        using submatch_pure(1) [of chunks pmatch x "ci + 1" "xi + r" j] pmatch_pure by blast
      show "fst (call_chunk pmatch (chunks ! ci) (Arr (slice x xi (xi + r))) j) \<noteq> TypeError" for r j
        unfolding e call_chunk_Rp using nt chunk_in_chunks_pats(2) [OF assms(2) e] by blast
      show "fst (submatch pmatch chunks x (ci + 1) (xi + r) j) \<noteq> TypeError" for r j
        using submatch_no_throw(1) [of chunks pmatch x "ci + 1" "xi + r" j] nt ok by blast
    qed
    then show ?thesis
      unfolding sub e call_chunk_Rp run_Ret_ctx_iff [symmetric, of _ _ "object_of []"] mem Bex_def
      by simp
  qed
  have "list_all callable ps \<longrightarrow>
            (fst (submatch pmatch chunks x ci xi j) = Match \<longleftrightarrow>
               (\<exists>r. xi + r \<le> length x \<and> (\<exists>c. run e (Arr (slice x xi (xi + r))) = Ret_ctx c)
                    \<and> fst (submatch pmatch chunks x (ci + 1) (xi + r) (object_of [])) = Match))
          \<and> (fst (submatch pmatch chunks x ci xi j) = NoMatch \<longleftrightarrow>
               \<not> (\<exists>r. xi + r \<le> length x \<and> (\<exists>c. run e (Arr (slice x xi (xi + r))) = Ret_ctx c)
                    \<and> fst (submatch pmatch chunks x (ci + 1) (xi + r) (object_of [])) = Match))"
  proof
    assume c: "list_all callable ps"
    show "(fst (submatch pmatch chunks x ci xi j) = Match \<longleftrightarrow>
               (\<exists>r. xi + r \<le> length x \<and> (\<exists>c. run e (Arr (slice x xi (xi + r))) = Ret_ctx c)
                    \<and> fst (submatch pmatch chunks x (ci + 1) (xi + r) (object_of [])) = Match))
          \<and> (fst (submatch pmatch chunks x ci xi j) = NoMatch \<longleftrightarrow>
               \<not> (\<exists>r. xi + r \<le> length x \<and> (\<exists>c. run e (Arr (slice x xi (xi + r))) = Ret_ctx c)
                    \<and> fst (submatch pmatch chunks x (ci + 1) (xi + r) (object_of [])) = Match))"
      unfolding sem [OF c] by simp
  qed
  with e have "\<exists>e. chunks ! ci = Rp e \<and>
         (list_all callable ps \<longrightarrow>
            (fst (submatch pmatch chunks x ci xi j) = Match \<longleftrightarrow>
               (\<exists>r. xi + r \<le> length x \<and> (\<exists>c. run e (Arr (slice x xi (xi + r))) = Ret_ctx c)
                    \<and> fst (submatch pmatch chunks x (ci + 1) (xi + r) (object_of [])) = Match))
          \<and> (fst (submatch pmatch chunks x ci xi j) = NoMatch \<longleftrightarrow>
               \<not> (\<exists>r. xi + r \<le> length x \<and> (\<exists>c. run e (Arr (slice x xi (xi + r))) = Ret_ctx c)
                    \<and> fst (submatch pmatch chunks x (ci + 1) (xi + r) (object_of [])) = Match)))"
    by blast
  with fl sub rs show ?thesis by blast
qed

theorem greedy_chunk_search_witness:
  "[Rp (greedy R_any_fn B_undefined B_undefined), Fx [is_lit (Num 1)]]
     = chunkify [greedy R_any_fn B_undefined B_undefined, is_lit (Num 1)] is_rep
   \<and> chunk_type ([Rp (greedy R_any_fn B_undefined B_undefined), Fx [is_lit (Num 1)]] ! 0)
     = Some T_greedy
   \<and> list_all callable [greedy R_any_fn B_undefined B_undefined, is_lit (Num 1)]
   \<and> fixlength [Rp (greedy R_any_fn B_undefined B_undefined), Fx [is_lit (Num 1)]] 0 = 0
   \<and> fst (submatch pmatch [Rp (greedy R_any_fn B_undefined B_undefined), Fx [is_lit (Num 1)]]
        [Prim (Num 2), Prim (Num 1)] 0 0 (object_of [])) = Match"
proof -
  let ?g = "greedy R_any_fn B_undefined B_undefined"
  let ?ps = "[?g, is_lit (Num 1)]"
  let ?chunks = "[Rp ?g, Fx [is_lit (Num 1)]]"
  let ?x = "[Prim (Num 2), Prim (Num 1)]"
  have ch: "?chunks = chunkify ?ps is_rep" by code_simp
  have lt: "0 < length ?chunks" by simp
  have ty: "chunk_type (?chunks ! 0) = Some T_greedy" by code_simp
  have ca: "list_all callable ?ps" by code_simp
  note T = greedy_chunk_search [OF ch lt ty, of ?x 0 "object_of []"]
  from T have fl: "fixlength ?chunks 0 = 0" by (rule conjunct1)
  from T obtain e where e: "?chunks ! 0 = Rp e"
    and iff: "list_all callable ?ps \<longrightarrow>
      (fst (submatch pmatch ?chunks ?x 0 0 (object_of [])) = Match \<longleftrightarrow>
         (\<exists>r. 0 + r \<le> length ?x \<and> (\<exists>c. run e (Arr (slice ?x 0 (0 + r))) = Ret_ctx c)
              \<and> fst (submatch pmatch ?chunks ?x (0 + 1) (0 + r) (object_of [])) = Match))
      \<and> (fst (submatch pmatch ?chunks ?x 0 0 (object_of [])) = NoMatch \<longleftrightarrow>
         \<not> (\<exists>r. 0 + r \<le> length ?x \<and> (\<exists>c. run e (Arr (slice ?x 0 (0 + r))) = Ret_ctx c)
              \<and> fst (submatch pmatch ?chunks ?x (0 + 1) (0 + r) (object_of [])) = Match))"
    by (elim conjE exE) (rule that)
  have eg: "e = ?g" using e by simp
  have r1: "run ?g (Arr (slice ?x 0 (0 + 1))) = Ret_ctx (object_of [])" by code_simp
  have r2: "fst (submatch pmatch ?chunks ?x (0 + 1) (0 + 1) (object_of [])) = Match" by code_simp
  have "\<exists>r. 0 + r \<le> length ?x \<and> (\<exists>c. run e (Arr (slice ?x 0 (0 + r))) = Ret_ctx c)
              \<and> fst (submatch pmatch ?chunks ?x (0 + 1) (0 + r) (object_of [])) = Match"
    unfolding eg using r1 r2 by (intro exI [of _ 1]) simp
  with iff ca have "fst (submatch pmatch ?chunks ?x 0 0 (object_of [])) = Match" by blast
  with ch ty ca fl show ?thesis by (intro conjI)
qed

end
